theory Spec2Isabelle
  imports Main "HOL-Library.Word" "HOL-Library.Char_ord" "HOL-Library.List_Lexorder"
begin

section \<open>Data model\<close>

text \<open>
  The class \<^verbatim>\<open>AttendanceSystem\<close> has one member,
  \<^verbatim>\<open>std::map<int, std::vector<std::string>> attendance\<close>.
  A roll number is a C++ \<^verbatim>\<open>int\<close>, a 32-bit two's complement value. A
  \<^verbatim>\<open>std::string\<close> is a sequence of bytes; \<^verbatim>\<open>operator<\<close> on strings is the
  lexicographic order of the bytes read as unsigned values, which is the order of
  \<open>char list\<close> given by \<open>Char_ord\<close> and \<open>List_Lexorder\<close>.

  A \<^verbatim>\<open>std::map\<close> holds at most one entry per key and is iterated in ascending key
  order (\<^verbatim>\<open>std::less<int>\<close>, the signed comparison). The store is the sequence of its
  entries in iteration order; \<open>store_inv\<close> says that the keys are strictly ascending.
\<close>

type_synonym roll = "32 word"

type_synonym store = "(roll \<times> string list) list"

definition roll_less :: "roll \<Rightarrow> roll \<Rightarrow> bool" where
  "roll_less a b \<longleftrightarrow> sint a < sint b"

definition store_inv :: "store \<Rightarrow> bool" where
  "store_inv s \<longleftrightarrow> sorted_wrt roll_less (map fst s)"

text \<open>\<^verbatim>\<open>attendance.find(rollNo)\<close>: the entry of the key, if there is one.\<close>

fun find_roll :: "store \<Rightarrow> roll \<Rightarrow> string list option" where
  "find_roll [] k = None"
| "find_roll ((k', v) # r) k = (if k' = k then Some v else find_roll r k)"

text \<open>
  \<^verbatim>\<open>attendance[rollNo]\<close> yields a reference to the vector of the key, after inserting
  an empty vector when the key is absent. \<open>at_roll s k f\<close> is the store after the vector
  behind that reference has been replaced by \<open>f\<close> of itself; \<open>dates_at s k\<close> is what is
  read through the reference.
\<close>

fun at_roll :: "store \<Rightarrow> roll \<Rightarrow> (string list \<Rightarrow> string list) \<Rightarrow> store" where
  "at_roll [] k f = [(k, f [])]"
| "at_roll ((k', v) # r) k f =
     (if k' = k then (k', f v) # r
      else if roll_less k k' then (k, f []) # (k', v) # r
      else (k', v) # at_roll r k f)"

definition dates_at :: "store \<Rightarrow> roll \<Rightarrow> string list" where
  "dates_at s k = (case find_roll s k of None \<Rightarrow> [] | Some v \<Rightarrow> v)"

section \<open>Library functions used by the program\<close>

text \<open>
  \<^verbatim>\<open>std::to_string(int)\<close> and \<^verbatim>\<open>operator<<(int)\<close>: the decimal digits, with a
  leading minus sign for a negative value.
\<close>

definition digit_char :: "nat \<Rightarrow> char" where
  "digit_char d = char_of (48 + d)"

fun nat_digits :: "nat \<Rightarrow> string" where
  "nat_digits n =
     (if n < 10 then [digit_char n] else nat_digits (n div 10) @ [digit_char (n mod 10)])"

declare nat_digits.simps [simp del]

definition to_string :: "int \<Rightarrow> string" where
  "to_string i = (if i < 0 then CHR ''-'' # nat_digits (nat (- i)) else nat_digits (nat i))"

text \<open>
  \<^verbatim>\<open>std::stoi(str)\<close> is \<^verbatim>\<open>strtol\<close> in base 10: leading white space is skipped, one
  sign is accepted, then the longest run of decimal digits is read and the rest of the
  string is ignored. No digit: \<^verbatim>\<open>std::invalid_argument\<close>. A value outside the range of
  \<^verbatim>\<open>int\<close>: \<^verbatim>\<open>std::out_of_range\<close>.
\<close>

datatype exn = Invalid_argument | Out_of_range

definition is_space :: "char \<Rightarrow> bool" where
  "is_space c \<longleftrightarrow> c \<in> {CHR '' '', CHR 0x09, CHR 0x0A, CHR 0x0D, CHR 0x0C, CHR 0x0B}"

definition is_digit :: "char \<Rightarrow> bool" where
  "is_digit c \<longleftrightarrow> 48 \<le> (of_char c :: nat) \<and> (of_char c :: nat) \<le> 57"

definition digit_val :: "char \<Rightarrow> int" where
  "digit_val c = int (of_char c) - 48"

definition digits_value :: "string \<Rightarrow> int" where
  "digits_value ds = foldl (\<lambda>a c. 10 * a + digit_val c) 0 ds"

definition stoi :: "string \<Rightarrow> exn + roll" where
  "stoi str =
     (let s1 = dropWhile is_space str;
          signed = (s1 \<noteq> [] \<and> (hd s1 = CHR ''-'' \<or> hd s1 = CHR ''+''));
          negative = (s1 \<noteq> [] \<and> hd s1 = CHR ''-'');
          ds = takeWhile is_digit (if signed then tl s1 else s1);
          v = (if negative then - digits_value ds else digits_value ds)
      in if ds = [] then Inl Invalid_argument
         else if v < - (2 ^ 31) \<or> 2 ^ 31 - 1 < v then Inl Out_of_range
         else Inr (word_of_int v))"

text \<open>
  \<^verbatim>\<open>while (std::getline(date_ss, date_segment, ','))\<close>: the pieces between commas,
  in order. At the end of the stream \<^verbatim>\<open>getline\<close> fails, so an empty stream has no piece
  and a comma at the very end is not followed by an empty piece.
\<close>

function getline_all :: "string \<Rightarrow> string list" where
  "getline_all s =
     (if s = [] then []
      else takeWhile (\<lambda>c. c \<noteq> CHR '','') s
           # getline_all (drop 1 (dropWhile (\<lambda>c. c \<noteq> CHR '','') s)))"
  by pat_completeness auto
termination
proof (relation "measure length")
  fix s :: string
  assume "s \<noteq> []"
  have "length (dropWhile (\<lambda>c. c \<noteq> CHR '','') s) \<le> length s"
    by (rule length_dropWhile_le)
  moreover have "0 < length s"
    using \<open>s \<noteq> []\<close> by simp
  ultimately have "length (dropWhile (\<lambda>c. c \<noteq> CHR '','') s) - 1 < length s"
    by arith
  then show "(drop 1 (dropWhile (\<lambda>c. c \<noteq> CHR '','') s), s) \<in> measure length"
    by simp
qed simp

declare getline_all.simps [simp del]

text \<open>
  \<^verbatim>\<open>s.length() >= 2 && s.front() == l && s.back() == r\<close> and
  \<^verbatim>\<open>s.substr(1, s.length() - 2)\<close>.
\<close>

definition wrapped :: "char \<Rightarrow> char \<Rightarrow> string \<Rightarrow> bool" where
  "wrapped l r s \<longleftrightarrow> 2 \<le> length s \<and> hd s = l \<and> last s = r"

definition inner :: "string \<Rightarrow> string" where
  "inner s = take (length s - 2) (drop 1 s)"

text \<open>\<^verbatim>\<open>segment.find(':')\<close>: the position of the first colon, or \<^verbatim>\<open>npos\<close>.\<close>

definition find_colon :: "string \<Rightarrow> nat option" where
  "find_colon s =
     (if CHR '':'' \<in> set s then Some (length (takeWhile (\<lambda>c. c \<noteq> CHR '':'') s)) else None)"

section \<open>escape_json_string\<close>

fun escape_json_string :: "string \<Rightarrow> string" where
  "escape_json_string [] = []"
| "escape_json_string (c # s) =
     (if c = CHR 0x22 then [CHR 0x5C, CHR 0x22]
      else if c = CHR 0x5C then [CHR 0x5C, CHR 0x5C]
      else if c = CHR 0x0A then [CHR 0x5C, CHR ''n'']
      else if c = CHR 0x0D then [CHR 0x5C, CHR ''r'']
      else if c = CHR 0x09 then [CHR 0x5C, CHR ''t'']
      else [c]) @ escape_json_string s"

definition quoted :: "string \<Rightarrow> string" where
  "quoted d = [CHR 0x22] @ escape_json_string d @ [CHR 0x22]"

section \<open>markAttendance, viewAttendance, getOverallStats\<close>

text \<open>
  Each method takes the store and returns the string it returns in the source; the one
  method that is not \<^verbatim>\<open>const\<close>, \<^verbatim>\<open>markAttendance\<close>, returns the new store as well.
  The first \<^verbatim>\<open>attendance[rollNo]\<close>, in the test of the \<^verbatim>\<open>if\<close>, already inserts the key.
\<close>

definition markAttendance :: "roll \<Rightarrow> string \<Rightarrow> store \<Rightarrow> string \<times> store" where
  \<open>markAttendance rollNo date s =
     (let s1 = at_roll s rollNo (\<lambda>v. v) in
      if date \<notin> set (dates_at s1 rollNo) then
        (''{"status": "success", "message": "Attendance marked for Roll No: ''
           @ to_string (sint rollNo) @ '' on '' @ date @ ''"}'',
         at_roll (at_roll s1 rollNo (\<lambda>v. v @ [date])) rollNo sort)
      else
        (''{"status": "error", "message": "Attendance already marked for Roll No: ''
           @ to_string (sint rollNo) @ '' on '' @ date @ ''"}'',
         s1))\<close>

text \<open>
  The loop of \<^verbatim>\<open>viewAttendance\<close> runs over the indices \<open>i\<close> of the vector and writes
  the separator when \<^verbatim>\<open>i < size - 1\<close>; inside the loop the size is at least 1.
\<close>

definition view_dates :: "string list \<Rightarrow> string" where
  \<open>view_dates ds =
     concat (map (\<lambda>i. quoted (ds ! i) @ (if i < length ds - 1 then '', '' else []))
                 [0 ..< length ds])\<close>

definition view_found :: "roll \<Rightarrow> string \<Rightarrow> string" where
  \<open>view_found rollNo body =
     ''{"status": "success", "roll_no": '' @ to_string (sint rollNo)
       @ '', "dates": ['' @ body @ '']}''\<close>

definition view_not_found :: "roll \<Rightarrow> string" where
  \<open>view_not_found rollNo =
     ''{"status": "error", "message": "Roll No: '' @ to_string (sint rollNo)
       @ '' not found."}''\<close>

definition viewAttendance :: "roll \<Rightarrow> store \<Rightarrow> string" where
  "viewAttendance rollNo s =
     (case find_roll s rollNo of
        Some ds \<Rightarrow> view_found rollNo (view_dates ds)
      | None \<Rightarrow> view_not_found rollNo)"

text \<open>
  \<^verbatim>\<open>getOverallStats\<close>. \<^verbatim>\<open>totalStudents\<close> and \<^verbatim>\<open>totalAttendanceEntries\<close> are
  of type \<^verbatim>\<open>int\<close>, 32 bits: the first is \<^verbatim>\<open>attendance.size()\<close> converted to
  \<^verbatim>\<open>int\<close>, the second is increased by \<^verbatim>\<open>pair.second.size()\<close> and converted
  back to \<^verbatim>\<open>int\<close>, both modulo \<open>2 ^ 32\<close>; they are printed as signed values.
  \<^verbatim>\<open>uniqueDates\<close> is a \<^verbatim>\<open>std::set<std::string>\<close>, a finite set of strings, and
  \<^verbatim>\<open>uniqueDates.size()\<close> is printed as it is, the number of its elements.
\<close>

fun stats_loop :: "store \<Rightarrow> 32 word \<Rightarrow> string set \<Rightarrow> 32 word \<times> string set" where
  "stats_loop [] totalAttendanceEntries uniqueDates = (totalAttendanceEntries, uniqueDates)"
| "stats_loop ((k, ds) # r) totalAttendanceEntries uniqueDates =
     stats_loop r (totalAttendanceEntries + word_of_nat (length ds))
       (fold insert ds uniqueDates)"

definition getOverallStats :: "store \<Rightarrow> string" where
  \<open>getOverallStats s =
     (let totalStudents = (word_of_nat (length s) :: 32 word);
          (totalAttendanceEntries, uniqueDates) = stats_loop s 0 {}
      in ''{"status": "success", "stats": {''
           @ ''"total_students": '' @ to_string (sint totalStudents) @ '', ''
           @ ''"total_unique_dates": '' @ to_string (int (card uniqueDates)) @ '', ''
           @ ''"total_attendance_entries": '' @ to_string (sint totalAttendanceEntries)
           @ ''}}'')\<close>

text \<open>
  The three commands of \<^verbatim>\<open>main\<close> that reach the store, each with the store it leaves
  behind. \<^verbatim>\<open>viewAttendance\<close> and \<^verbatim>\<open>getOverallStats\<close> are \<^verbatim>\<open>const\<close> methods: they
  look the key up with \<^verbatim>\<open>find\<close> and iterate, and never use \<^verbatim>\<open>operator[]\<close>.
\<close>

datatype command = Mark roll string | View roll | Stats

fun run_command :: "command \<Rightarrow> store \<Rightarrow> string \<times> store" where
  "run_command (Mark rollNo date) s = markAttendance rollNo date s"
| "run_command (View rollNo) s = (viewAttendance rollNo s, s)"
| "run_command Stats s = (getOverallStats s, s)"

text \<open>A sequence of \<^verbatim>\<open>markAttendance\<close> calls on one store.\<close>

fun mark_all :: "(roll \<times> string) list \<Rightarrow> store \<Rightarrow> store" where
  "mark_all [] s = s"
| "mark_all ((rollNo, date) # ms) s = mark_all ms (snd (markAttendance rollNo date s))"

section \<open>saveData\<close>

text \<open>
  The text written to the file, with the two flags \<^verbatim>\<open>first_date\<close> and
  \<^verbatim>\<open>first_student\<close> of the loops. \<open>saveData\<close> takes whether the file could be opened
  and returns the boolean of the source and the text written.
\<close>

fun save_dates :: "bool \<Rightarrow> string list \<Rightarrow> string" where
  "save_dates first_date [] = []"
| "save_dates first_date (date # ds) =
     (if \<not> first_date then '','' else []) @ quoted date @ save_dates False ds"

fun save_students :: "bool \<Rightarrow> store \<Rightarrow> string" where
  "save_students first_student [] = []"
| "save_students first_student ((k, ds) # r) =
     (if \<not> first_student then '','' else [])
       @ [CHR 0x22] @ to_string (sint k) @ [CHR 0x22] @ '':['' @ save_dates True ds @ '']''
       @ save_students False r"

definition encode :: "store \<Rightarrow> string" where
  "encode s = ''{'' @ save_students True s @ ''}''"

definition saveData :: "bool \<Rightarrow> store \<Rightarrow> bool \<times> string option" where
  "saveData is_open s = (if \<not> is_open then (False, None) else (True, Some (encode s)))"

section \<open>loadData\<close>

text \<open>
  The white space of \<^verbatim>\<open>find_first_not_of\<close> and \<^verbatim>\<open>find_last_not_of\<close> is the set of
  \<open>is_space\<close>. The two \<^verbatim>\<open>erase\<close> calls remove it at both ends; a piece of white space
  only becomes empty.
\<close>

definition trim :: "string \<Rightarrow> string" where
  "trim s = rev (dropWhile is_space (rev (dropWhile is_space s)))"

definition clean_date :: "string \<Rightarrow> string" where
  "clean_date date_segment =
     (let t = trim date_segment in if wrapped (CHR 0x22) (CHR 0x22) t then inner t else t)"

definition strip_key :: "string \<Rightarrow> string" where
  "strip_key key_str = (if wrapped (CHR 0x22) (CHR 0x22) key_str then inner key_str else key_str)"

text \<open>The inner \<^verbatim>\<open>while\<close> loop and the \<^verbatim>\<open>std::sort\<close> after it.\<close>

definition push_dates :: "store \<Rightarrow> roll \<Rightarrow> string \<Rightarrow> store" where
  "push_dates st rollNo value_str =
     at_roll
       (fold (\<lambda>date_segment st'. at_roll st' rollNo (\<lambda>v. v @ [clean_date date_segment]))
             (getline_all value_str) st)
       rollNo sort"

text \<open>
  The body of the \<^verbatim>\<open>for\<close> loop for one segment (lines 101 to 131): \<^verbatim>\<open>continue\<close>
  leaves the store as it is, an exception of \<^verbatim>\<open>std::stoi\<close> is the result \<open>Inl\<close>.
\<close>

definition load_segment :: "store \<Rightarrow> string \<Rightarrow> exn + store" where
  "load_segment st segment =
     (case find_colon segment of
        None \<Rightarrow> Inr st
      | Some colon_pos \<Rightarrow>
          (let key_str = take colon_pos segment;
               value_str = drop (colon_pos + 1) segment
           in (case stoi (strip_key key_str) of
                 Inl e \<Rightarrow> Inl e
               | Inr rollNo \<Rightarrow>
                   if wrapped (CHR ''['') (CHR '']'') value_str
                   then Inr (push_dates st rollNo (inner value_str))
                   else Inr st)))"

text \<open>
  The last segment (lines 135 to 161): the same steps, but the test for the brackets
  has no \<^verbatim>\<open>else\<close> branch.
\<close>

definition load_last_segment :: "store \<Rightarrow> string \<Rightarrow> exn + store" where
  "load_last_segment st segment =
     (case find_colon segment of
        None \<Rightarrow> Inr st
      | Some colon_pos \<Rightarrow>
          (let key_str = take colon_pos segment;
               value_str = drop (colon_pos + 1) segment
           in (case stoi (strip_key key_str) of
                 Inl e \<Rightarrow> Inl e
               | Inr rollNo \<Rightarrow>
                   Inr (push_dates st rollNo
                          (if wrapped (CHR ''['') (CHR '']'') value_str
                           then inner value_str else value_str)))))"

text \<open>
  The \<^verbatim>\<open>for\<close> loop over the characters of the text between the outer braces.
  \<open>cs\<close> is the text from position \<open>i\<close> on and \<open>segment\<close> is
  \<^verbatim>\<open>json_str.substr(start, i - start)\<close>. The result is the last segment,
  \<^verbatim>\<open>json_str.substr(start)\<close>, and the store, or the exception that left the loop.
\<close>

definition count_brace :: "char \<Rightarrow> int \<Rightarrow> int" where
  "count_brace c brace_count =
     (if c = CHR ''{'' then brace_count + 1
      else if c = CHR ''}'' then brace_count - 1
      else brace_count)"

definition count_bracket :: "char \<Rightarrow> int \<Rightarrow> int" where
  "count_bracket c bracket_count =
     (if c = CHR ''{'' then bracket_count
      else if c = CHR ''}'' then bracket_count
      else if c = CHR ''['' then bracket_count + 1
      else if c = CHR '']'' then bracket_count - 1
      else bracket_count)"

fun scan :: "string \<Rightarrow> string \<Rightarrow> int \<Rightarrow> int \<Rightarrow> store \<Rightarrow> exn + (string \<times> store)" where
  "scan [] segment brace_count bracket_count st = Inr (segment, st)"
| "scan (c # cs) segment brace_count bracket_count st =
     (let brace_count' = count_brace c brace_count;
          bracket_count' = count_bracket c bracket_count
      in if c = CHR '','' \<and> brace_count' = 0 \<and> bracket_count' = 0
         then (case load_segment st segment of
                 Inl e \<Rightarrow> Inl e
               | Inr st' \<Rightarrow> scan cs [] brace_count' bracket_count' st')
         else scan cs (segment @ [c]) brace_count' bracket_count' st)"

text \<open>
  \<open>loadData file st\<close>: \<open>file\<close> is the content of the file, \<open>None\<close> when it cannot be
  opened, and \<open>st\<close> is the store at the call. Each \<^verbatim>\<open>return\<close> of the source is one
  outcome; \<^verbatim>\<open>Invalid_format\<close> and \<^verbatim>\<open>Parse_failed\<close> are the two that write an error
  message to \<^verbatim>\<open>std::cerr\<close>, and only \<open>Loaded\<close> returns \<^verbatim>\<open>true\<close>. The handler
  of the exception clears the store.
\<close>

datatype load_outcome = Not_opened | Empty_file | Invalid_format | Parse_failed exn | Loaded

definition loadData :: "string option \<Rightarrow> store \<Rightarrow> load_outcome \<times> store" where
  "loadData file st =
     (case file of
        None \<Rightarrow> (Not_opened, st)
      | Some json_str \<Rightarrow>
          if json_str = [] then (Empty_file, st)
          else if length json_str < 2 \<or> hd json_str \<noteq> CHR ''{'' \<or> last json_str \<noteq> CHR ''}''
          then (Invalid_format, st)
          else (case scan (inner json_str) [] 0 0 st of
                  Inl e \<Rightarrow> (Parse_failed e, [])
                | Inr (segment, st') \<Rightarrow>
                    (case load_last_segment st' segment of
                       Inl e \<Rightarrow> (Parse_failed e, [])
                     | Inr st'' \<Rightarrow> (Loaded, st''))))"

fun is_ParseError :: "load_outcome \<Rightarrow> bool" where
  "is_ParseError Invalid_format = True"
| "is_ParseError (Parse_failed e) = True"
| "is_ParseError _ = False"

section \<open>Formats named by the specification\<close>

text \<open>Pieces separated by \<open>sep\<close>: nothing before the first and nothing after the last.\<close>

fun join :: "string \<Rightarrow> string list \<Rightarrow> string" where
  "join sep [] = []"
| "join sep [x] = x"
| "join sep (x # y # ys) = x @ sep @ join sep (y # ys)"

text \<open>Every vector of the store is in ascending order and has no string twice.\<close>

definition dates_ok :: "store \<Rightarrow> bool" where
  "dates_ok s \<longleftrightarrow> list_all (\<lambda>(k, ds). sorted ds \<and> distinct ds) s"

text \<open>
  The five escape rules as a table from a character to its replacement; a character
  that is not in the table stands for itself.
\<close>

definition escape_rules :: "(char \<times> string) list" where
  "escape_rules =
     [(CHR 0x22, [CHR 0x5C, CHR 0x22]),
      (CHR 0x5C, [CHR 0x5C, CHR 0x5C]),
      (CHR 0x0A, [CHR 0x5C, CHR ''n'']),
      (CHR 0x0D, [CHR 0x5C, CHR ''r'']),
      (CHR 0x09, [CHR 0x5C, CHR ''t''])]"

definition spec_escape :: "string \<Rightarrow> string" where
  "spec_escape d =
     concat (map (\<lambda>c. case map_of escape_rules c of Some e \<Rightarrow> e | None \<Rightarrow> [c]) d)"

text \<open>
  The text of a store: the entries \<^verbatim>\<open>"<id>":[<dates>]\<close> separated by commas between
  braces, the dates escaped, quoted and separated by commas.
\<close>

definition spec_entry :: "roll \<times> string list \<Rightarrow> string" where
  "spec_entry e =
     [CHR 0x22] @ to_string (sint (fst e)) @ [CHR 0x22] @ '':[''
       @ join '','' (map (\<lambda>d. [CHR 0x22] @ spec_escape d @ [CHR 0x22]) (snd e)) @ '']''"

definition spec_encode :: "store \<Rightarrow> string" where
  "spec_encode s = ''{'' @ join '','' (map spec_entry s) @ ''}''"

text \<open>
  An integer-valued string: one optional sign, then one decimal digit or more, and
  nothing else.
\<close>

definition integer_valued :: "string \<Rightarrow> bool" where
  "integer_valued str =
     (let ds = (if str \<noteq> [] \<and> (hd str = CHR ''-'' \<or> hd str = CHR ''+'') then tl str else str)
      in ds \<noteq> [] \<and> list_all is_digit ds)"

text \<open>
  The top-level entries of the text between the outer braces: the pieces between the
  commas at which both depth counters are 0. \<open>seg\<close> is the piece being read.
\<close>

fun top_segments :: "string \<Rightarrow> string \<Rightarrow> int \<Rightarrow> int \<Rightarrow> string list" where
  "top_segments [] seg braces brackets = [seg]"
| "top_segments (c # cs) seg braces brackets =
     (if c = CHR '','' \<and> count_brace c braces = 0 \<and> count_bracket c brackets = 0
      then seg # top_segments cs [] (count_brace c braces) (count_bracket c brackets)
      else top_segments cs (seg @ [c]) (count_brace c braces) (count_bracket c brackets))"

text \<open>
  \<^verbatim>\<open>std::stoi\<close> refuses the id of an entry: the entry has a colon, and in the text
  before the first colon, without one layer of quotes, there is no decimal digit after
  the leading white space and one sign, or the digits there give a value outside the
  range of \<^verbatim>\<open>int\<close>.
\<close>

definition id_refused :: "string \<Rightarrow> bool" where
  "id_refused entry =
     (case find_colon entry of
        None \<Rightarrow> False
      | Some colon_pos \<Rightarrow> isl (stoi (strip_key (take colon_pos entry))))"

text \<open>
  The characters that the text format gives a meaning to: the five that
  \<^verbatim>\<open>escape_json_string\<close> replaces, the comma, the brackets and the braces. A date
  is plain when it has none of them.
\<close>

definition special_chars :: "char list" where
  "special_chars =
     [CHR 0x22, CHR 0x5C, CHR 0x0A, CHR 0x0D, CHR 0x09,
      CHR '','', CHR ''['', CHR '']'', CHR ''{'', CHR ''}'']"

definition plain_date :: "string \<Rightarrow> bool" where
  "plain_date d \<longleftrightarrow> list_all (\<lambda>c. c \<notin> set special_chars) d"

definition plain_store :: "store \<Rightarrow> bool" where
  "plain_store s \<longleftrightarrow> list_all (\<lambda>(k, ds). list_all plain_date ds) s"

text \<open>The text of one entry with plain dates, in the parts the loop sees.\<close>

definition key_text :: "roll \<Rightarrow> string" where
  "key_text k = CHR 0x22 # to_string (sint k) @ [CHR 0x22]"

definition body_text :: "string list \<Rightarrow> string" where
  "body_text ds = join '','' (map (\<lambda>d. CHR 0x22 # d @ [CHR 0x22]) ds)"

section \<open>The store as a key-ordered map\<close>

lemma roll_less_irrefl: "\<not> roll_less k k"
  by (simp add: roll_less_def)

lemma roll_less_trans: "roll_less a b \<Longrightarrow> roll_less b c \<Longrightarrow> roll_less a c"
  by (simp add: roll_less_def)

lemma roll_less_total: "\<not> roll_less a b \<Longrightarrow> a \<noteq> b \<Longrightarrow> roll_less b a"
  by (auto simp: roll_less_def not_less le_less dest: signed_word_eqI)

lemma find_roll_None_iff: "find_roll s k = None \<longleftrightarrow> k \<notin> fst ` set s"
  by (induction s) (force split: if_splits)+

lemma find_roll_Some_mem: "find_roll s k = Some ds \<Longrightarrow> (k, ds) \<in> set s"
  by (induction s) (auto split: if_splits)

lemma store_inv_Cons:
  "store_inv ((k, v) # r) \<longleftrightarrow> (\<forall>k' \<in> fst ` set r. roll_less k k') \<and> store_inv r"
  by (auto simp: store_inv_def)

lemma store_inv_Nil: "store_inv []"
  by (simp add: store_inv_def)

lemma store_inv_distinct: "store_inv s \<Longrightarrow> distinct (map fst s)"
  by (induction s) (force simp: store_inv_Cons roll_less_irrefl)+

lemma keys_at_roll: "fst ` set (at_roll s k f) = insert k (fst ` set s)"
  by (induction s k f rule: at_roll.induct) (simp_all add: insert_commute)

lemma store_inv_at_roll: "store_inv s \<Longrightarrow> store_inv (at_roll s k f)"
proof (induction s)
  case Nil
  show ?case by (simp add: store_inv_def)
next
  case (Cons p r)
  obtain k' v where p: "p = (k', v)" by (cases p)
  from Cons.prems have tl: "\<forall>x \<in> fst ` set r. roll_less k' x" and inv: "store_inv r"
    by (simp_all add: p store_inv_Cons)
  show ?case
  proof (cases "k' = k")
    case True
    with tl inv show ?thesis by (simp add: p store_inv_Cons)
  next
    case ne: False
    show ?thesis
    proof (cases "roll_less k k'")
      case True
      with tl inv ne show ?thesis
        by (auto simp: p store_inv_Cons intro: roll_less_trans)
    next
      case False
      with ne have "roll_less k' k" by (simp add: roll_less_total)
      with tl inv ne False Cons.IH show ?thesis
        by (simp add: p store_inv_Cons keys_at_roll)
    qed
  qed
qed

lemma find_roll_at_roll_other:
  "k' \<noteq> k \<Longrightarrow> find_roll (at_roll s k f) k' = find_roll s k'"
  by (induction s) auto

lemma find_roll_at_roll_same:
  "store_inv s \<Longrightarrow> find_roll (at_roll s k f) k = Some (f (dates_at s k))"
proof (induction s)
  case Nil
  show ?case by (simp add: dates_at_def)
next
  case (Cons p r)
  obtain k' v where p: "p = (k', v)" by (cases p)
  from Cons.prems have tl: "\<forall>x \<in> fst ` set r. roll_less k' x" and inv: "store_inv r"
    by (simp_all add: p store_inv_Cons)
  show ?case
  proof (cases "k' = k")
    case True
    then show ?thesis by (simp add: p dates_at_def)
  next
    case ne: False
    show ?thesis
    proof (cases "roll_less k k'")
      case True
      have "k \<notin> fst ` set r"
      proof
        assume "k \<in> fst ` set r"
        with tl have "roll_less k' k" by blast
        with True have "roll_less k k" by (rule roll_less_trans)
        then show False by (simp add: roll_less_irrefl)
      qed
      then have "find_roll r k = None" by (simp add: find_roll_None_iff)
      with True ne show ?thesis by (simp add: p dates_at_def)
    next
      case False
      with ne Cons.IH [OF inv] show ?thesis by (simp add: p dates_at_def)
    qed
  qed
qed

lemma dates_at_at_roll_same:
  "store_inv s \<Longrightarrow> dates_at (at_roll s k f) k = f (dates_at s k)"
  by (simp add: dates_at_def [of "at_roll s k f"] find_roll_at_roll_same)

lemma dates_at_at_roll_other:
  "k' \<noteq> k \<Longrightarrow> dates_at (at_roll s k f) k' = dates_at s k'"
  by (simp add: dates_at_def find_roll_at_roll_other)

section \<open>markAttendance\<close>

text \<open>
  C1. In a store where \<open>date\<close> is not among the dates of \<open>rollNo\<close> (a student that is
  absent has none), \<^verbatim>\<open>markAttendance(rollNo, date)\<close> returns the text with the status
  \<^verbatim>\<open>success\<close>, the roll number and the date, and afterwards \<open>date\<close> is among the
  dates of \<open>rollNo\<close>; the same call again returns the text with the status
  \<^verbatim>\<open>error\<close>, "already marked", the roll number and the date; after the two calls
  the student has exactly one date more than at the start.
\<close>

theorem markAttendance_twice:
  assumes "store_inv s" and "date \<notin> set (dates_at s rollNo)"
  shows \<open>fst (markAttendance rollNo date s)
           = ''{"status": "success", "message": "Attendance marked for Roll No: ''
               @ to_string (sint rollNo) @ '' on '' @ date @ ''"}''
       \<and> date \<in> set (dates_at (snd (markAttendance rollNo date s)) rollNo)
       \<and> fst (markAttendance rollNo date (snd (markAttendance rollNo date s)))
           = ''{"status": "error", "message": "Attendance already marked for Roll No: ''
               @ to_string (sint rollNo) @ '' on '' @ date @ ''"}''
       \<and> length (dates_at (snd (markAttendance rollNo date
                                  (snd (markAttendance rollNo date s)))) rollNo)
           = length (dates_at s rollNo) + 1\<close>
proof -
  let ?s1 = "at_roll s rollNo (\<lambda>v. v)"
  let ?s2 = "at_roll (at_roll ?s1 rollNo (\<lambda>v. v @ [date])) rollNo sort"
  let ?ok = \<open>''{"status": "success", "message": "Attendance marked for Roll No: ''
               @ to_string (sint rollNo) @ '' on '' @ date @ ''"}''\<close>
  let ?dup = \<open>''{"status": "error", "message": "Attendance already marked for Roll No: ''
               @ to_string (sint rollNo) @ '' on '' @ date @ ''"}''\<close>
  have inv1: "store_inv ?s1" using assms(1) by (rule store_inv_at_roll)
  have inv2: "store_inv (at_roll ?s1 rollNo (\<lambda>v. v @ [date]))"
    using inv1 by (rule store_inv_at_roll)
  have inv3: "store_inv ?s2" using inv2 by (rule store_inv_at_roll)
  have d1: "dates_at ?s1 rollNo = dates_at s rollNo"
    using assms(1) by (simp add: dates_at_at_roll_same)
  have first: "markAttendance rollNo date s = (?ok, ?s2)"
    using assms(2) d1 by (simp add: markAttendance_def Let_def)
  have d2: "dates_at ?s2 rollNo = sort (dates_at s rollNo @ [date])"
    using inv2 inv1 d1 by (simp add: dates_at_at_roll_same)
  have d3: "dates_at (at_roll ?s2 rollNo (\<lambda>v. v)) rollNo = sort (dates_at s rollNo @ [date])"
    using inv3 d2 by (simp add: dates_at_at_roll_same)
  have second: "markAttendance rollNo date ?s2 = (?dup, at_roll ?s2 rollNo (\<lambda>v. v))"
    unfolding markAttendance_def Let_def d3 by simp
  show ?thesis
    unfolding first second fst_conv snd_conv d2 d3
    by simp
qed

theorem markAttendance_twice_witness:
  \<open>store_inv [(101, [''2025-07-01''])]
   \<and> ''2025-07-02'' \<notin> set (dates_at [(101, [''2025-07-01''])] 101)
   \<and> fst (markAttendance 101 ''2025-07-02'' [(101, [''2025-07-01''])])
       = ''{"status": "success", "message": "Attendance marked for Roll No: 101 on 2025-07-02"}''
   \<and> ''2025-07-02''
       \<in> set (dates_at (snd (markAttendance 101 ''2025-07-02'' [(101, [''2025-07-01''])])) 101)
   \<and> fst (markAttendance 101 ''2025-07-02''
              (snd (markAttendance 101 ''2025-07-02'' [(101, [''2025-07-01''])])))
       = ''{"status": "error", "message": "Attendance already marked for Roll No: 101 on 2025-07-02"}''
   \<and> length (dates_at (snd (markAttendance 101 ''2025-07-02''
                (snd (markAttendance 101 ''2025-07-02'' [(101, [''2025-07-01''])])))) 101)
       = 2\<close>
proof -
  let ?s = "[(101, [''2025-07-01''])] :: store"
  have h1: "store_inv ?s"
    by (simp add: store_inv_def)
  have h2: "''2025-07-02'' \<notin> set (dates_at ?s 101)"
    by (simp add: dates_at_def)
  have h3: "length (dates_at ?s 101) + 1 = 2"
    by (simp add: dates_at_def)
  have n: "to_string (sint (101 :: roll)) = ''101''"
    by code_simp
  note t = markAttendance_twice [OF h1 h2, unfolded n h3]
  from t have c1: \<open>fst (markAttendance 101 ''2025-07-02'' ?s)
       = ''{"status": "success", "message": "Attendance marked for Roll No: 101 on 2025-07-02"}''\<close>
    by simp
  from t have c2: "''2025-07-02'' \<in> set (dates_at (snd (markAttendance 101 ''2025-07-02'' ?s)) 101)"
    by (rule conjunct2 [THEN conjunct1])
  from t have c3: \<open>fst (markAttendance 101 ''2025-07-02''
                        (snd (markAttendance 101 ''2025-07-02'' ?s)))
       = ''{"status": "error", "message": "Attendance already marked for Roll No: 101 on 2025-07-02"}''\<close>
    by simp
  from t have c4: "length (dates_at (snd (markAttendance 101 ''2025-07-02''
                     (snd (markAttendance 101 ''2025-07-02'' ?s)))) 101) = 2"
    by (rule conjunct2 [THEN conjunct2, THEN conjunct2])
  from h1 h2 c1 c2 c3 c4 show ?thesis
    by (intro conjI)
qed

lemma store_inv_markAttendance:
  "store_inv s \<Longrightarrow> store_inv (snd (markAttendance k d s))"
  by (simp add: markAttendance_def Let_def store_inv_at_roll)

lemma find_roll_markAttendance_other:
  "k' \<noteq> k \<Longrightarrow> find_roll (snd (markAttendance k d s)) k' = find_roll s k'"
  by (simp add: markAttendance_def Let_def find_roll_at_roll_other)

lemma find_roll_markAttendance_same:
  assumes "store_inv s"
  shows "find_roll (snd (markAttendance k d s)) k
           = Some (if d \<in> set (dates_at s k) then dates_at s k
                   else sort (dates_at s k @ [d]))"
proof -
  let ?s1 = "at_roll s k (\<lambda>v. v)"
  have inv1: "store_inv ?s1" using assms by (rule store_inv_at_roll)
  have inv2: "store_inv (at_roll ?s1 k (\<lambda>v. v @ [d]))" using inv1 by (rule store_inv_at_roll)
  have d1: "dates_at ?s1 k = dates_at s k"
    using assms by (simp add: dates_at_at_roll_same)
  show ?thesis
  proof (cases "d \<in> set (dates_at s k)")
    case True
    then show ?thesis
      using assms d1 by (simp add: markAttendance_def Let_def find_roll_at_roll_same)
  next
    case False
    then show ?thesis
      using inv1 inv2 d1
      by (simp add: markAttendance_def Let_def find_roll_at_roll_same dates_at_at_roll_same)
  qed
qed

lemma dates_ok_find: "dates_ok s \<Longrightarrow> find_roll s k = Some ds \<Longrightarrow> sorted ds \<and> distinct ds"
  by (auto simp: dates_ok_def list_all_iff dest!: find_roll_Some_mem)

lemma dates_ok_dates_at: "dates_ok s \<Longrightarrow> sorted (dates_at s k) \<and> distinct (dates_at s k)"
  by (cases "find_roll s k") (auto simp: dates_at_def dest: dates_ok_find)

lemma find_roll_complete:
  "store_inv s \<Longrightarrow> (k, ds) \<in> set s \<Longrightarrow> find_roll s k = Some ds"
proof (induction s)
  case Nil
  then show ?case by simp
next
  case (Cons p r)
  obtain k' v where p: "p = (k', v)" by (cases p)
  from Cons.prems(1) have tl: "\<forall>x \<in> fst ` set r. roll_less k' x" and inv: "store_inv r"
    by (simp_all add: p store_inv_Cons)
  show ?case
  proof (cases "k' = k")
    case True
    have "(k, ds) \<notin> set r"
    proof
      assume "(k, ds) \<in> set r"
      then have "k \<in> fst ` set r" by force
      with tl True have "roll_less k k" by blast
      then show False by (simp add: roll_less_irrefl)
    qed
    with Cons.prems(2) True show ?thesis by (simp add: p)
  next
    case False
    with Cons.prems(2) Cons.IH [OF inv] show ?thesis by (simp add: p)
  qed
qed

lemma dates_ok_iff:
  "store_inv s \<Longrightarrow>
     dates_ok s \<longleftrightarrow> (\<forall>k ds. find_roll s k = Some ds \<longrightarrow> sorted ds \<and> distinct ds)"
  by (auto simp: dates_ok_def list_all_iff dest: find_roll_complete find_roll_Some_mem)

lemma dates_ok_markAttendance:
  assumes "store_inv s" and "dates_ok s"
  shows "dates_ok (snd (markAttendance k d s))"
proof -
  have inv: "store_inv (snd (markAttendance k d s))"
    using assms(1) by (rule store_inv_markAttendance)
  have "sorted ds \<and> distinct ds" if f: "find_roll (snd (markAttendance k d s)) k' = Some ds"
    for k' ds
  proof (cases "k' = k")
    case False
    with f have "find_roll s k' = Some ds" by (simp add: find_roll_markAttendance_other)
    with assms(2) show ?thesis by (rule dates_ok_find)
  next
    case True
    note ok = dates_ok_dates_at [OF assms(2), of k]
    from f True find_roll_markAttendance_same [OF assms(1), of k d]
    have ds: "ds = (if d \<in> set (dates_at s k) then dates_at s k
                    else sort (dates_at s k @ [d]))"
      by simp
    show ?thesis
      using ok by (simp add: ds)
  qed
  with inv show ?thesis by (simp add: dates_ok_iff)
qed

lemma mark_all_invariants:
  "store_inv s \<Longrightarrow> dates_ok s \<Longrightarrow> store_inv (mark_all ms s) \<and> dates_ok (mark_all ms s)"
proof (induction ms arbitrary: s)
  case Nil
  then show ?case by simp
next
  case (Cons m ms)
  obtain k d where m: "m = (k, d)" by (cases m)
  from Cons.prems have "store_inv (snd (markAttendance k d s))"
    and "dates_ok (snd (markAttendance k d s))"
    by (simp_all add: store_inv_markAttendance dates_ok_markAttendance)
  then show ?case
    using Cons.IH by (simp add: m)
qed

text \<open>
  C2. After any sequence of \<^verbatim>\<open>markAttendance\<close> calls on the empty store, the dates of
  every student present in the store are in ascending lexicographic order and no date
  occurs twice.
\<close>

theorem mark_all_sorted_distinct:
  "find_roll (mark_all ms []) rollNo = Some ds \<Longrightarrow> sorted ds \<and> distinct ds"
proof -
  assume f: "find_roll (mark_all ms []) rollNo = Some ds"
  have "dates_ok (mark_all ms [])"
    using mark_all_invariants [of "[]" ms] by (simp add: store_inv_Nil dates_ok_def)
  then show ?thesis using f by (rule dates_ok_find)
qed

theorem mark_all_sorted_distinct_witness:
  "find_roll (mark_all [(101, ''2025-07-02''), (7, ''x''), (101, ''2025-07-01''),
                        (101, ''2025-07-02'')] []) 101
     = Some [''2025-07-01'', ''2025-07-02'']
   \<and> sorted [''2025-07-01'', ''2025-07-02''] \<and> distinct [''2025-07-01'', ''2025-07-02'']"
proof -
  have h: "find_roll (mark_all [(101, ''2025-07-02''), (7, ''x''), (101, ''2025-07-01''),
                                (101, ''2025-07-02'')] []) 101
             = Some [''2025-07-01'', ''2025-07-02'']"
    by (simp add: markAttendance_def dates_at_def roll_less_def)
  from mark_all_sorted_distinct [OF h] h show ?thesis
    by blast
qed

section \<open>viewAttendance\<close>






section \<open>Frame\<close>

text \<open>
  C10. The commands \<^verbatim>\<open>view\<close> and \<^verbatim>\<open>stats\<close> leave the whole store as it was, and
  \<^verbatim>\<open>markAttendance(id1, date)\<close> leaves the entry of every other roll number \<open>id2\<close>
  as it was: present with the same dates, or absent.
\<close>

theorem frame_of_commands:
  "snd (run_command (View rollNo) s) = s
   \<and> snd (run_command Stats s) = s
   \<and> (id1 \<noteq> id2 \<longrightarrow> find_roll (snd (run_command (Mark id1 date) s)) id2 = find_roll s id2)"
  by (simp add: find_roll_markAttendance_other)

theorem frame_of_commands_witness:
  "(101 :: roll) \<noteq> 102
   \<and> find_roll (snd (run_command (Mark 101 ''2025-07-02'')
                      [(101, [''2025-07-01'']), (102, [''2025-07-01''])])) 102
       = Some [''2025-07-01'']"
proof -
  have h: "(101 :: roll) \<noteq> 102" by simp
  from frame_of_commands [of 0 "[(101, [''2025-07-01'']), (102, [''2025-07-01''])]"
         101 102 "''2025-07-02''"] h
  show ?thesis by simp
qed

section \<open>getOverallStats\<close>

lemma fold_insert_set: "fold insert ds u = set ds \<union> u"
  by (induction ds arbitrary: u) auto

lemma stats_loop_eq:
  "stats_loop s n u
     = (n + word_of_nat (sum_list (map (\<lambda>(k, ds). length ds) s)),
        u \<union> (\<Union>(k, ds) \<in> set s. set ds))"
  by (induction s n u rule: stats_loop.induct) (auto simp: fold_insert_set)

lemma card_keys: "store_inv s \<Longrightarrow> card (fst ` set s) = length s"
  using distinct_card [OF store_inv_distinct, of s] by simp

lemma sint_word_of_nat: "n < 2 ^ 31 \<Longrightarrow> sint (word_of_nat n :: 32 word) = int n"
  by (simp add: signed_of_nat signed_take_bit_int_eq_self)

text \<open>Decimal digits of a number written as a numeral.\<close>

lemma nat_digits_numeral:
  "nat_digits (numeral v) =
     (if (numeral v :: nat) < 10 then [digit_char (numeral v)]
      else nat_digits (numeral v div 10) @ [digit_char (numeral v mod 10)])"
  by (rule nat_digits.simps)

lemma nat_digits_0_1: "nat_digits 0 = ''0''" "nat_digits 1 = ''1''" "nat_digits (Suc 0) = ''1''"
  by code_simp+

lemma digit_char_table:
  "digit_char 0 = CHR ''0''" "digit_char 1 = CHR ''1''" "digit_char (Suc 0) = CHR ''1''"
  "digit_char 2 = CHR ''2''" "digit_char 3 = CHR ''3''" "digit_char 4 = CHR ''4''"
  "digit_char 5 = CHR ''5''" "digit_char 6 = CHR ''6''" "digit_char 7 = CHR ''7''"
  "digit_char 8 = CHR ''8''" "digit_char 9 = CHR ''9''"
  by code_simp+

lemmas to_string_numeral = to_string_def nat_digits_numeral nat_digits_0_1 digit_char_table

text \<open>
  C4, as amended. In a store with fewer than \<open>2 ^ 31\<close> students and fewer than
  \<open>2 ^ 31\<close> attendance entries in all, \<^verbatim>\<open>getOverallStats\<close> returns the text with the
  status \<^verbatim>\<open>success\<close> and, under the names \<^verbatim>\<open>total_students\<close>,
  \<^verbatim>\<open>total_unique_dates\<close> and \<^verbatim>\<open>total_attendance_entries\<close>, the number of distinct
  roll numbers in the store, the number of distinct date strings in the union of all
  vectors, and the sum of the lengths of all vectors. On the empty store the three
  numbers are 0.
\<close>

theorem getOverallStats_counts:
  assumes "store_inv s"
    and "card (fst ` set s) < 2 ^ 31"
    and "sum_list (map (\<lambda>(k, ds). length ds) s) < 2 ^ 31"
  shows \<open>getOverallStats s
           = ''{"status": "success", "stats": {"total_students": ''
               @ to_string (int (card (fst ` set s)))
               @ '', "total_unique_dates": ''
               @ to_string (int (card (\<Union>(k, ds) \<in> set s. set ds)))
               @ '', "total_attendance_entries": ''
               @ to_string (int (sum_list (map (\<lambda>(k, ds). length ds) s)))
               @ ''}}''
         \<and> getOverallStats []
           = ''{"status": "success", "stats": {"total_students": 0, "total_unique_dates": 0, "total_attendance_entries": 0}}''\<close>
proof -
  have k: "card (fst ` set s) = length s"
    using assms(1) by (rule card_keys)
  have n1: "sint (word_of_nat (length s) :: 32 word) = int (length s)"
    using assms(2) unfolding k by (rule sint_word_of_nat)
  have n2: "sint (word_of_nat (sum_list (map (\<lambda>(k, ds). length ds) s)) :: 32 word)
              = int (sum_list (map (\<lambda>(k, ds). length ds) s))"
    using assms(3) by (rule sint_word_of_nat)
  have z: "to_string 0 = ''0''"
    by code_simp
  have a: \<open>getOverallStats s
           = ''{"status": "success", "stats": {"total_students": ''
               @ to_string (int (card (fst ` set s)))
               @ '', "total_unique_dates": ''
               @ to_string (int (card (\<Union>(k, ds) \<in> set s. set ds)))
               @ '', "total_attendance_entries": ''
               @ to_string (int (sum_list (map (\<lambda>(k, ds). length ds) s)))
               @ ''}}''\<close>
    by (simp add: getOverallStats_def stats_loop_eq k n1 n2)
  have b: \<open>getOverallStats []
           = ''{"status": "success", "stats": {"total_students": 0, "total_unique_dates": 0, "total_attendance_entries": 0}}''\<close>
    by (simp add: getOverallStats_def z)
  from a b show ?thesis ..
qed

theorem getOverallStats_counts_witness:
  \<open>store_inv [(101, [''2025-07-01'', ''2025-07-02'']), (102, [''2025-07-01''])]
   \<and> card (fst ` set [(101 :: roll, [''2025-07-01'', ''2025-07-02'']), (102, [''2025-07-01''])])
       = 2
   \<and> sum_list (map (\<lambda>(k, ds). length ds)
         [(101 :: roll, [''2025-07-01'', ''2025-07-02'']), (102, [''2025-07-01''])]) = 3
   \<and> getOverallStats [(101, [''2025-07-01'', ''2025-07-02'']), (102, [''2025-07-01''])]
       = ''{"status": "success", "stats": {"total_students": 2, "total_unique_dates": 2, "total_attendance_entries": 3}}''\<close>
proof -
  let ?s = "[(101, [''2025-07-01'', ''2025-07-02'']), (102, [''2025-07-01''])] :: store"
  have h1: "store_inv ?s"
    by (simp add: store_inv_def roll_less_def)
  have c: "card (fst ` set ?s) = 2"
    by simp
  have u: "card (\<Union>(k, ds) \<in> set ?s. set ds) = 2"
    by simp
  have e: "sum_list (map (\<lambda>(k, ds). length ds) ?s) = 3"
    by simp
  have h2: "card (fst ` set ?s) < 2 ^ 31"
    unfolding c by simp
  have h3: "sum_list (map (\<lambda>(k, ds). length ds) ?s) < 2 ^ 31"
    unfolding e by simp
  have n: "to_string (int 2) = ''2''" "to_string (int 3) = ''3''"
    by code_simp+
  from getOverallStats_counts [OF h1 h2 h3]
  have \<open>getOverallStats ?s
          = ''{"status": "success", "stats": {"total_students": ''
              @ to_string (int (card (fst ` set ?s)))
              @ '', "total_unique_dates": ''
              @ to_string (int (card (\<Union>(k, ds) \<in> set ?s. set ds)))
              @ '', "total_attendance_entries": ''
              @ to_string (int (sum_list (map (\<lambda>(k, ds). length ds) ?s)))
              @ ''}}''\<close>
    by (rule conjunct1)
  then have t: \<open>getOverallStats ?s
       = ''{"status": "success", "stats": {"total_students": 2, "total_unique_dates": 2, "total_attendance_entries": 3}}''\<close>
    unfolding c u e n by simp
  from h1 c e t show ?thesis
    by (intro conjI)
qed

text \<open>
  C4, as stated, fails: the store in which roll number 1 has \<open>2 ^ 31\<close> dates, all the
  empty string, has \<open>2 ^ 31\<close> attendance entries, and \<^verbatim>\<open>totalAttendanceEntries\<close>, an
  \<^verbatim>\<open>int\<close>, is printed as \<open>- 2 ^ 31\<close>.
\<close>

lemma getOverallStats_one_student:
  assumes "0 < n"
  shows \<open>getOverallStats [(k, replicate n d)]
           = ''{"status": "success", "stats": {"total_students": 1, "total_unique_dates": 1, "total_attendance_entries": ''
               @ to_string (sint (word_of_nat n :: 32 word)) @ ''}}''\<close>
proof -
  have one: "to_string 1 = ''1''"
    by code_simp
  have "set (replicate n d) = {d}"
    using assms by simp
  then have "stats_loop [(k, replicate n d)] 0 {} = (word_of_nat n, {d})"
    by (simp only: stats_loop_eq) simp
  then show ?thesis
    by (simp add: getOverallStats_def one)
qed

theorem getOverallStats_wraps:
  \<open>store_inv [(1, replicate 2147483648 [])]
   \<and> sum_list (map (\<lambda>(k, ds). length ds) [(1 :: roll, replicate 2147483648 ([] :: string))])
       = 2147483648
   \<and> getOverallStats [(1, replicate 2147483648 [])]
       = ''{"status": "success", "stats": {"total_students": 1, "total_unique_dates": 1, "total_attendance_entries": -2147483648}}''
   \<and> getOverallStats [(1, replicate 2147483648 [])]
       \<noteq> ''{"status": "success", "stats": {"total_students": 1, "total_unique_dates": 1, "total_attendance_entries": 2147483648}}''\<close>
proof -
  let ?s = "[(1, replicate 2147483648 [])] :: store"
  have h: "store_inv ?s"
    by (simp add: store_inv_def)
  have e: "sum_list (map (\<lambda>(k, ds). length ds) ?s) = 2147483648"
    by simp
  have w: "sint (word_of_nat 2147483648 :: 32 word) = - 2147483648"
    by simp
  have n: "to_string (- 2147483648) = ''-2147483648''"
    by (simp add: to_string_numeral)
  have p: "0 < (2147483648 :: nat)"
    by simp
  have t: \<open>getOverallStats ?s
       = ''{"status": "success", "stats": {"total_students": 1, "total_unique_dates": 1, "total_attendance_entries": -2147483648}}''\<close>
    unfolding getOverallStats_one_student [OF p] w n by simp
  have d: \<open>getOverallStats ?s
       \<noteq> ''{"status": "success", "stats": {"total_students": 1, "total_unique_dates": 1, "total_attendance_entries": 2147483648}}''\<close>
    unfolding t by simp
  from h e t d show ?thesis
    by (intro conjI)
qed

section \<open>saveData\<close>

lemma join_Cons: "join sep (x # xs) = x @ concat (map (\<lambda>y. sep @ y) xs)"
  by (induction xs arbitrary: x) simp_all

lemma escape_json_string_spec: "escape_json_string d = spec_escape d"
  by (induction d) (simp_all add: spec_escape_def escape_rules_def)

lemma quoted_spec: "quoted d = [CHR 0x22] @ spec_escape d @ [CHR 0x22]"
  by (simp add: quoted_def escape_json_string_spec)

lemma save_dates_False: "save_dates False ds = concat (map (\<lambda>d. '','' @ quoted d) ds)"
  by (induction ds) simp_all

lemma save_dates_True: "save_dates True ds = join '','' (map quoted ds)"
  by (cases ds) (simp_all add: join_Cons save_dates_False comp_def)

lemma entry_text:
  "[CHR 0x22] @ to_string (sint k) @ [CHR 0x22] @ '':['' @ save_dates True ds @ '']''
     = spec_entry (k, ds)"
proof -
  have "quoted = (\<lambda>d. [CHR 0x22] @ spec_escape d @ [CHR 0x22])"
    by (rule ext) (rule quoted_spec)
  then show ?thesis
    by (simp add: spec_entry_def save_dates_True)
qed

lemma save_students_False:
  "save_students False s = concat (map (\<lambda>e. '','' @ spec_entry e) s)"
proof (induction s)
  case Nil
  show ?case by simp
next
  case (Cons e s)
  obtain k ds where e: "e = (k, ds)" by (cases e)
  have "save_students False ((k, ds) # s)
          = '','' @ ([CHR 0x22] @ to_string (sint k) @ [CHR 0x22] @ '':[''
                      @ save_dates True ds @ '']'') @ save_students False s"
    by simp
  then show ?case
    unfolding e entry_text Cons.IH by simp
qed

lemma save_students_True: "save_students True s = join '','' (map spec_entry s)"
proof (cases s)
  case Nil
  then show ?thesis by simp
next
  case (Cons e r)
  obtain k ds where e: "e = (k, ds)" by (cases e)
  have "save_students True ((k, ds) # r)
          = ([CHR 0x22] @ to_string (sint k) @ [CHR 0x22] @ '':[''
               @ save_dates True ds @ '']'') @ save_students False r"
    by simp
  then show ?thesis
    unfolding Cons e entry_text save_students_False by (simp add: join_Cons comp_def)
qed

lemma encode_spec: "encode s = spec_encode s"
  by (simp add: encode_def spec_encode_def save_students_True)

lemma encode_example:
  \<open>encode [(- 3, [''y'']), (101, [''2025-07-01'', ''2025-07-02''])]
     = ''{"-3":["y"],"101":["2025-07-01","2025-07-02"]}''\<close>
  by code_simp

text \<open>
  C8. The text that \<^verbatim>\<open>saveData\<close> writes is, for every store, an opening brace, the
  entries \<^verbatim>\<open>"<id>":[<dates>]\<close> of the students separated by commas, and a closing
  brace; the dates of an entry are quoted and separated by commas. Once the file is
  open \<^verbatim>\<open>saveData\<close> returns \<^verbatim>\<open>true\<close>. \<^verbatim>\<open>escape_json_string\<close> replaces the double
  quote, the backslash, newline, carriage return and tab as the five rules say and
  copies every other character.
\<close>

theorem saveData_format:
  "encode s = spec_encode s
   \<and> saveData True s = (True, Some (spec_encode s))
   \<and> escape_json_string d = spec_escape d"
  by (simp add: saveData_def encode_spec escape_json_string_spec)

section \<open>The store stays key-ordered\<close>

lemma store_inv_fold_at_roll:
  "store_inv st \<Longrightarrow> store_inv (fold (\<lambda>x st'. at_roll st' k (g x)) xs st)"
  by (induction xs arbitrary: st) (simp_all add: store_inv_at_roll)

lemma store_inv_push_dates: "store_inv st \<Longrightarrow> store_inv (push_dates st k v)"
  unfolding push_dates_def by (intro store_inv_at_roll store_inv_fold_at_roll)

lemma store_inv_load_segment:
  "store_inv st \<Longrightarrow> load_segment st seg = Inr st' \<Longrightarrow> store_inv st'"
  by (auto simp: load_segment_def Let_def store_inv_push_dates
           split: option.splits sum.splits if_splits)

lemma store_inv_load_last_segment:
  "store_inv st \<Longrightarrow> load_last_segment st seg = Inr st' \<Longrightarrow> store_inv st'"
  by (auto simp: load_last_segment_def Let_def store_inv_push_dates
           split: option.splits sum.splits)

lemma store_inv_scan:
  "store_inv st \<Longrightarrow> scan cs seg bc kc st = Inr (seg', st') \<Longrightarrow> store_inv st'"
proof (induction cs arbitrary: seg bc kc st)
  case Nil
  then show ?case by simp
next
  case (Cons c cs)
  show ?case
  proof (cases "c = CHR '','' \<and> count_brace c bc = 0 \<and> count_bracket c kc = 0")
    case True
    with Cons.prems(2) obtain st1 where l: "load_segment st seg = Inr st1"
      and s: "scan cs [] (count_brace c bc) (count_bracket c kc) st1 = Inr (seg', st')"
      by (auto simp: Let_def split: sum.splits)
    from Cons.prems(1) l have "store_inv st1" by (rule store_inv_load_segment)
    then show ?thesis using s by (rule Cons.IH)
  next
    case False
    with Cons.prems(2)
    have "scan cs (seg @ [c]) (count_brace c bc) (count_bracket c kc) st = Inr (seg', st')"
      by (auto simp: Let_def)
    with Cons.prems(1) show ?thesis by (rule Cons.IH)
  qed
qed

lemma store_inv_loadData: "store_inv st \<Longrightarrow> store_inv (snd (loadData file st))"
  by (auto simp: loadData_def store_inv_Nil split: option.splits sum.splits prod.splits
           dest: store_inv_scan store_inv_load_last_segment)

lemma store_inv_mark_all: "store_inv s \<Longrightarrow> store_inv (mark_all ms s)"
  by (induction ms arbitrary: s) (auto simp: store_inv_markAttendance)

lemma store_inv_entries:
  "store_inv s \<Longrightarrow> map (\<lambda>k. (k, the (find_roll s k))) (map fst s) = s"
proof -
  assume inv: "store_inv s"
  have "(\<lambda>k. (k, the (find_roll s k))) (fst e) = e" if "e \<in> set s" for e
  proof -
    obtain k ds where e: "e = (k, ds)" by (cases e)
    from inv that have "find_roll s k = Some ds"
      unfolding e by (rule find_roll_complete)
    then show ?thesis by (simp add: e)
  qed
  then show ?thesis
    unfolding map_map comp_def by (simp add: map_idI)
qed

lemma store_inv_keys_sorted:
  "store_inv s \<Longrightarrow> sorted (map (\<lambda>e. sint (fst e)) s) \<and> distinct (map (\<lambda>e. sint (fst e)) s)"
proof (induction s)
  case Nil
  show ?case by simp
next
  case (Cons p r)
  obtain k v where p: "p = (k, v)" by (cases p)
  from Cons.prems have tl: "\<forall>x \<in> fst ` set r. roll_less k x" and inv: "store_inv r"
    by (simp_all add: p store_inv_Cons)
  from tl have "\<forall>e \<in> set r. sint k < sint (fst e)"
    by (auto simp: roll_less_def)
  with Cons.IH [OF inv] show ?case
    by (fastforce simp: p)
qed

lemma store_unique:
  assumes "store_inv s" and "store_inv s'" and "\<forall>k. find_roll s k = find_roll s' k"
  shows "s = s'"
proof -
  have keys: "fst ` set s = fst ` set s'"
  proof -
    have "k \<in> fst ` set s \<longleftrightarrow> k \<in> fst ` set s'" for k
      using assms(3) find_roll_None_iff [of s k] find_roll_None_iff [of s' k] by simp
    then show ?thesis by blast
  qed
  have "set (map (\<lambda>e. sint (fst e)) s) = set (map (\<lambda>e. sint (fst e)) s')"
    using keys by (simp add: image_image [symmetric, of sint fst])
  with store_inv_keys_sorted [OF assms(1)] store_inv_keys_sorted [OF assms(2)]
  have "map (\<lambda>e. sint (fst e)) s = map (\<lambda>e. sint (fst e)) s'"
    by (intro sorted_distinct_set_unique) simp_all
  then have "map sint (map fst s) = map sint (map fst s')"
    by (simp only: map_map comp_def)
  moreover have "inj (sint :: roll \<Rightarrow> int)"
    by (rule injI) (rule signed_word_eqI)
  ultimately have k: "map fst s = map fst s'"
    by (simp only: inj_map_eq_map)
  have "s = map (\<lambda>k. (k, the (find_roll s k))) (map fst s)"
    using assms(1) by (simp only: store_inv_entries)
  also have "\<dots> = map (\<lambda>k. (k, the (find_roll s' k))) (map fst s')"
    using assms(3) k by simp
  also have "\<dots> = s'"
    using assms(2) by (simp only: store_inv_entries)
  finally show ?thesis .
qed

text \<open>
  C9. Take two stores, each reached by loading some file into the empty store and then
  marking any sequence of attendances. The text written for such a store lists the
  students in strictly ascending order of the roll number, and when the two stores hold
  the same dates for every roll number the two texts are the same string.
\<close>

theorem encode_ordered_deterministic:
  assumes "s = mark_all ms (snd (loadData file []))"
    and "s' = mark_all ms' (snd (loadData file' []))"
    and "\<forall>k. find_roll s k = find_roll s' k"
  shows "encode s = ''{'' @ join '','' (map spec_entry s) @ ''}''
         \<and> sorted_wrt (\<lambda>a b. sint a < sint b) (map fst s)
         \<and> encode s = encode s'"
proof -
  have inv: "store_inv s"
    unfolding assms(1) by (intro store_inv_mark_all store_inv_loadData store_inv_Nil)
  have inv': "store_inv s'"
    unfolding assms(2) by (intro store_inv_mark_all store_inv_loadData store_inv_Nil)
  from inv inv' assms(3) have "s = s'" by (rule store_unique)
  moreover from inv have "sorted_wrt (\<lambda>a b. sint a < sint b) (map fst s)"
    by (simp add: store_inv_def roll_less_def [abs_def])
  ultimately show ?thesis
    by (simp add: encode_spec spec_encode_def)
qed

theorem encode_ordered_deterministic_witness:
  \<open>(\<forall>k. find_roll (mark_all [(102, ''a''), (101, ''b'')] (snd (loadData None []))) k
         = find_roll (mark_all [(101, ''b'')] (snd (loadData (Some ''{"102":["a"]}'') []))) k)
   \<and> encode (mark_all [(102, ''a''), (101, ''b'')] (snd (loadData None [])))
       = encode (mark_all [(101, ''b'')] (snd (loadData (Some ''{"102":["a"]}'') [])))
   \<and> encode (mark_all [(102, ''a''), (101, ''b'')] (snd (loadData None [])))
       = ''{"101":["b"],"102":["a"]}''\<close>
proof -
  let ?s = "mark_all [(102, ''a''), (101, ''b'')] (snd (loadData None []))"
  let ?s' = \<open>mark_all [(101, ''b'')] (snd (loadData (Some ''{"102":["a"]}'') []))\<close>
  have e1: "?s = [(101, [''b'']), (102, [''a''])]" by code_simp
  have e2: "?s' = [(101, [''b'']), (102, [''a''])]" by code_simp
  have h: "\<forall>k. find_roll ?s k = find_roll ?s' k"
    by (simp only: e1 e2) simp
  have t: \<open>encode [(101, [''b'']), (102, [''a''])] = ''{"101":["b"],"102":["a"]}''\<close>
    by code_simp
  from encode_ordered_deterministic [OF refl refl h]
  have eq: "encode ?s = encode ?s'" by blast
  have t': \<open>encode ?s = ''{"101":["b"],"102":["a"]}''\<close>
    by (simp only: e1 t)
  from h eq t' show ?thesis by (intro conjI)
qed

section \<open>loadData: failures\<close>

lemma load_segment_Inr_good: "load_segment st seg = Inr st' \<Longrightarrow> \<not> id_refused seg"
  by (auto simp: load_segment_def id_refused_def Let_def split: option.splits sum.splits)

lemma load_last_segment_Inr_good: "load_last_segment st seg = Inr st' \<Longrightarrow> \<not> id_refused seg"
  by (auto simp: load_last_segment_def id_refused_def Let_def split: option.splits sum.splits)

lemma top_segments_not_Nil: "top_segments cs seg bc kc \<noteq> []"
  by (induction cs arbitrary: seg bc kc) auto

lemma scan_Inr_segments:
  "scan cs seg bc kc st = Inr (l, st') \<Longrightarrow>
     l = last (top_segments cs seg bc kc)
     \<and> (\<forall>x \<in> set (butlast (top_segments cs seg bc kc)). \<not> id_refused x)"
proof (induction cs arbitrary: seg bc kc st)
  case Nil
  then show ?case by simp
next
  case (Cons c cs)
  show ?case
  proof (cases "c = CHR '','' \<and> count_brace c bc = 0 \<and> count_bracket c kc = 0")
    case True
    with Cons.prems obtain st1 where l: "load_segment st seg = Inr st1"
      and s: "scan cs [] (count_brace c bc) (count_bracket c kc) st1 = Inr (l, st')"
      by (auto simp: Let_def split: sum.splits)
    from l have g: "\<not> id_refused seg" by (rule load_segment_Inr_good)
    let ?r = "top_segments cs [] (count_brace c bc) (count_bracket c kc)"
    from True have "c = CHR '',''" and "count_brace c bc = 0" and "count_bracket c kc = 0"
      by blast+
    then have ts: "top_segments (c # cs) seg bc kc = seg # ?r"
      by (simp only: top_segments.simps simp_thms if_True)
    have ne: "?r \<noteq> []" by (rule top_segments_not_Nil)
    from Cons.IH [OF s] g ne show ?thesis
      unfolding ts by simp
  next
    case False
    with Cons.prems
    have "scan cs (seg @ [c]) (count_brace c bc) (count_bracket c kc) st = Inr (l, st')"
      by (auto simp: Let_def)
    moreover from False have "top_segments (c # cs) seg bc kc
        = top_segments cs (seg @ [c]) (count_brace c bc) (count_bracket c kc)"
      by auto
    ultimately show ?thesis
      using Cons.IH by simp
  qed
qed

lemma loaded_no_id_refused:
  assumes "scan cs [] 0 0 st = Inr (l, st')" and "load_last_segment st' l = Inr st''"
  shows "\<forall>x \<in> set (top_segments cs [] 0 0). \<not> id_refused x"
proof -
  let ?t = "top_segments cs [] 0 0"
  from scan_Inr_segments [OF assms(1)]
  have l: "l = last ?t" and b: "\<forall>x \<in> set (butlast ?t). \<not> id_refused x"
    by simp_all
  from assms(2) have "\<not> id_refused (last ?t)"
    unfolding l by (rule load_last_segment_Inr_good)
  moreover have "set ?t = set (butlast ?t @ [last ?t])"
    by (simp only: append_butlast_last_id [OF top_segments_not_Nil])
  ultimately show ?thesis using b by auto
qed

lemma loadData_id_refused:
  assumes "2 \<le> length json_str" and "hd json_str = CHR ''{''" and "last json_str = CHR ''}''"
    and "\<exists>x \<in> set (top_segments (inner json_str) [] 0 0). id_refused x"
  shows "\<exists>e. loadData (Some json_str) st = (Parse_failed e, [])"
proof -
  from assms(1) have ne: "json_str \<noteq> []" by auto
  show ?thesis
  proof (cases "scan (inner json_str) [] 0 0 st")
    case (Inl e)
    with ne assms(1-3) show ?thesis by (simp add: loadData_def)
  next
    case (Inr p)
    obtain l st' where p: "p = (l, st')" by (cases p)
    show ?thesis
    proof (cases "load_last_segment st' l")
      case (Inl e)
      with Inr p ne assms(1-3) show ?thesis by (simp add: loadData_def)
    next
      case r: (Inr st'')
      from Inr r have "\<forall>x \<in> set (top_segments (inner json_str) [] 0 0). \<not> id_refused x"
        unfolding p by (rule loaded_no_id_refused)
      with assms(4) show ?thesis by blast
    qed
  qed
qed

text \<open>
  C5, as amended. Loading the empty text leaves the empty store and is the outcome
  "empty file", which is not a parse error. A text that is not empty and is shorter
  than 2 characters or does not start with an opening brace and end with a closing
  brace is the outcome "invalid format", a parse error, and the store, empty at the
  start, is still empty. A text between braces with a top-level entry whose id
  \<^verbatim>\<open>std::stoi\<close> refuses (no decimal digit after leading white space and one sign, or
  a value outside the range of \<^verbatim>\<open>int\<close>) is a parse error by an exception, and the
  store is empty afterwards whatever it held before or had been given by the entries
  read so far.
\<close>

theorem loadData_failures:
  "loadData (Some []) [] = (Empty_file, [])
   \<and> \<not> is_ParseError Empty_file
   \<and> (json_str \<noteq> []
        \<and> (length json_str < 2 \<or> hd json_str \<noteq> CHR ''{'' \<or> last json_str \<noteq> CHR ''}'')
      \<longrightarrow> loadData (Some json_str) [] = (Invalid_format, [])
          \<and> is_ParseError Invalid_format)
   \<and> (2 \<le> length json_str \<and> hd json_str = CHR ''{'' \<and> last json_str = CHR ''}''
        \<and> (\<exists>entry \<in> set (top_segments (inner json_str) [] 0 0). id_refused entry)
      \<longrightarrow> is_ParseError (fst (loadData (Some json_str) st))
          \<and> snd (loadData (Some json_str) st) = [])"
proof -
  have a: "loadData (Some []) [] = (Empty_file, [])"
    by (simp add: loadData_def)
  have b: "loadData (Some json_str) [] = (Invalid_format, [])"
    if "json_str \<noteq> []"
      and "length json_str < 2 \<or> hd json_str \<noteq> CHR ''{'' \<or> last json_str \<noteq> CHR ''}''"
    using that by (simp add: loadData_def)
  have c: "is_ParseError (fst (loadData (Some json_str) st))
           \<and> snd (loadData (Some json_str) st) = []"
    if "2 \<le> length json_str" and "hd json_str = CHR ''{''" and "last json_str = CHR ''}''"
      and "\<exists>entry \<in> set (top_segments (inner json_str) [] 0 0). id_refused entry"
  proof -
    from loadData_id_refused [OF that] obtain e
      where "loadData (Some json_str) st = (Parse_failed e, [])" ..
    then show ?thesis by simp
  qed
  from a b c show ?thesis by simp
qed

theorem loadData_failures_witness:
  \<open>''{invalid'' \<noteq> [] \<and> last ''{invalid'' \<noteq> CHR ''}''
   \<and> loadData (Some ''{invalid'') [] = (Invalid_format, [])
   \<and> 2 \<le> length ''{"1":["e"],"x":["d"]}''
   \<and> hd ''{"1":["e"],"x":["d"]}'' = CHR ''{'' \<and> last ''{"1":["e"],"x":["d"]}'' = CHR ''}''
   \<and> top_segments (inner ''{"1":["e"],"x":["d"]}'') [] 0 0 = [''"1":["e"]'', ''"x":["d"]'']
   \<and> id_refused ''"x":["d"]''
   \<and> is_ParseError (fst (loadData (Some ''{"1":["e"],"x":["d"]}'') [(7, [''z''])]))
   \<and> snd (loadData (Some ''{"1":["e"],"x":["d"]}'') [(7, [''z''])]) = []\<close>
proof -
  let ?bad = \<open>''{invalid''\<close>
  let ?js = \<open>''{"1":["e"],"x":["d"]}''\<close>
  have h1: "?bad \<noteq> []" by simp
  have h1': "last ?bad \<noteq> CHR ''}''" by simp
  have h2: "2 \<le> length ?js" by simp
  have h2': "hd ?js = CHR ''{''" by simp
  have h2'': "last ?js = CHR ''}''" by simp
  have h3: \<open>top_segments (inner ?js) [] 0 0 = [''"1":["e"]'', ''"x":["d"]'']\<close>
    by code_simp
  have h4: \<open>id_refused ''"x":["d"]''\<close>
    by code_simp
  have h5: "\<exists>entry \<in> set (top_segments (inner ?js) [] 0 0). id_refused entry"
    unfolding h3 using h4 by simp
  have p1: "?bad \<noteq> []
        \<and> (length ?bad < 2 \<or> hd ?bad \<noteq> CHR ''{'' \<or> last ?bad \<noteq> CHR ''}'')"
    using h1 h1' by (intro conjI disjI2)
  have p2: "2 \<le> length ?js \<and> hd ?js = CHR ''{'' \<and> last ?js = CHR ''}''
        \<and> (\<exists>entry \<in> set (top_segments (inner ?js) [] 0 0). id_refused entry)"
    using h2 h2' h2'' h5 by (intro conjI)
  have c1: "loadData (Some ?bad) [] = (Invalid_format, [])"
    using loadData_failures [of ?bad "[]", THEN conjunct2, THEN conjunct2, THEN conjunct1,
            THEN mp, OF p1]
    by (rule conjunct1)
  have c2: "is_ParseError (fst (loadData (Some ?js) [(7, [''z''])]))
            \<and> snd (loadData (Some ?js) [(7, [''z''])]) = []"
    by (rule loadData_failures [of ?js "[(7, [''z''])]", THEN conjunct2, THEN conjunct2,
            THEN conjunct2, THEN mp, OF p2])
  from h1 h1' c1 h2 h2' h2'' h3 h4 c2 show ?thesis
    by (intro conjI) (erule conjunct1 conjunct2 | assumption)+
qed

text \<open>
  C5, as stated, fails: the ids \<^verbatim>\<open>12abc\<close> and \<^verbatim>\<open>1.5\<close> are not integer-valued
  strings, and the texts \<^verbatim>\<open>{"12abc":["b"]}\<close> and \<^verbatim>\<open>{"1.5":["b"]}\<close> are loaded
  without an error, for the roll numbers 12 and 1: \<^verbatim>\<open>std::stoi\<close> reads the leading
  digits and ignores the rest.
\<close>

theorem loadData_truncated_id:
  \<open>top_segments (inner ''{"12abc":["b"]}'') [] 0 0 = [''"12abc":["b"]'']
   \<and> find_colon ''"12abc":["b"]'' = Some 7
   \<and> strip_key (take 7 ''"12abc":["b"]'') = ''12abc''
   \<and> \<not> integer_valued ''12abc''
   \<and> loadData (Some ''{"12abc":["b"]}'') [] = (Loaded, [(12, [''b''])])
   \<and> \<not> integer_valued ''1.5''
   \<and> loadData (Some ''{"1.5":["b"]}'') [] = (Loaded, [(1, [''b''])])
   \<and> \<not> is_ParseError Loaded\<close>
proof -
  have a: \<open>top_segments (inner ''{"12abc":["b"]}'') [] 0 0 = [''"12abc":["b"]'']\<close>
    by code_simp
  have b: \<open>find_colon ''"12abc":["b"]'' = Some 7\<close>
    by code_simp
  have c: \<open>strip_key (take 7 ''"12abc":["b"]'') = ''12abc''\<close>
    by code_simp
  have d: "\<not> integer_valued ''12abc''"
    by code_simp
  have e: \<open>loadData (Some ''{"12abc":["b"]}'') [] = (Loaded, [(12, [''b''])])\<close>
    by code_simp
  have f: "\<not> integer_valued ''1.5''"
    by code_simp
  have g: \<open>loadData (Some ''{"1.5":["b"]}'') [] = (Loaded, [(1, [''b''])])\<close>
    by code_simp
  have h: "\<not> is_ParseError Loaded"
    by simp
  from a b c d e f g h show ?thesis
    by (intro conjI)
qed

section \<open>loadData: entries whose value has no brackets\<close>

lemma load_segment_unbracketed:
  "find_colon seg = Some p \<Longrightarrow> stoi (strip_key (take p seg)) = Inr k \<Longrightarrow>
     \<not> wrapped (CHR ''['') (CHR '']'') (drop (p + 1) seg) \<Longrightarrow> load_segment st seg = Inr st"
  by (simp add: load_segment_def)

lemma unbracketed_entry_skipped:
  \<open>loadData (Some ''{"1":abc,"2":["d"]}'') [] = (Loaded, [(2, [''d''])])\<close>
  by code_simp

text \<open>
  C6. The claim is that an entry whose value is not between brackets gives no dates,
  the last entry too. In the source the last entry is read by a copy of the loop body
  that has no \<^verbatim>\<open>else\<close> branch: the text \<^verbatim>\<open>{"1":abc}\<close> is loaded with the date
  \<^verbatim>\<open>abc\<close> for roll number 1.
\<close>

theorem unbracketed_last_entry_loaded:
  \<open>loadData (Some ''{"1":abc}'') [] = (Loaded, [(1, [''abc''])])\<close>
  by code_simp

theorem unbracketed_last_entry_loaded_witness:
  \<open>\<not> wrapped (CHR ''['') (CHR '']'') ''abc''
   \<and> fst (loadData (Some ''{"1":abc}'') []) = Loaded
   \<and> dates_at (snd (loadData (Some ''{"1":abc}'') [])) 1 = [''abc'']\<close>
  using unbracketed_last_entry_loaded by (simp add: wrapped_def dates_at_def)

section \<open>Reading back a roll number\<close>

lemma digit_char_props:
  "d < 10 \<Longrightarrow> is_digit (digit_char d) \<and> digit_val (digit_char d) = int d"
  by (simp add: is_digit_def digit_val_def digit_char_def)

lemma nat_digits_digits: "c \<in> set (nat_digits n) \<Longrightarrow> is_digit c"
proof (induction n arbitrary: c rule: nat_digits.induct)
  case (1 n)
  show ?case
  proof (cases "n < 10")
    case True
    with "1.prems" show ?thesis
      by (simp add: nat_digits.simps [of n] digit_char_props)
  next
    case False
    have "is_digit (digit_char (n mod 10))"
      by (simp add: digit_char_props)
    with False "1.prems" "1.IH" show ?thesis
      by (auto simp: nat_digits.simps [of n])
  qed
qed

lemma nat_digits_not_Nil: "nat_digits n \<noteq> []"
  by (simp add: nat_digits.simps [of n])

lemma digits_value_snoc: "digits_value (ds @ [c]) = 10 * digits_value ds + digit_val c"
  by (simp add: digits_value_def)

lemma digits_value_nat_digits: "digits_value (nat_digits n) = int n"
proof (induction n rule: nat_digits.induct)
  case (1 n)
  show ?case
  proof (cases "n < 10")
    case True
    then show ?thesis
      by (simp add: nat_digits.simps [of n] digits_value_def digit_char_props)
  next
    case False
    with "1.IH" have "digits_value (nat_digits (n div 10)) = int (n div 10)" by simp
    with False show ?thesis
      by (simp add: nat_digits.simps [of n] digits_value_snoc digit_char_props
            zdiv_int zmod_int)
  qed
qed

lemma is_digit_not_special:
  "is_digit c \<Longrightarrow> \<not> is_space c \<and> c \<noteq> CHR ''-'' \<and> c \<noteq> CHR ''+''"
  by (auto simp: is_digit_def is_space_def)

lemma digits_value_nonneg: "\<forall>c \<in> set ds. is_digit c \<Longrightarrow> 0 \<le> digits_value ds"
proof -
  have "0 \<le> a \<Longrightarrow> \<forall>c \<in> set ys. is_digit c
          \<Longrightarrow> 0 \<le> foldl (\<lambda>a c. 10 * a + digit_val c) a ys" for a ys
    by (induction ys arbitrary: a) (auto simp: is_digit_def digit_val_def)
  from this [of 0 ds] show "\<forall>c \<in> set ds. is_digit c \<Longrightarrow> 0 \<le> digits_value ds"
    by (simp add: digits_value_def)
qed

lemma stoi_digits:
  assumes "\<forall>c \<in> set ds. is_digit c" and "ds \<noteq> []"
    and "digits_value ds < 2 ^ 31"
  shows "stoi ds = Inr (word_of_int (digits_value ds))"
proof -
  obtain x xs where ds: "ds = x # xs" using assms(2) by (cases ds) auto
  with assms(1) have "is_digit x" by simp
  then have x: "\<not> is_space x" "x \<noteq> CHR ''-''" "x \<noteq> CHR ''+''"
    by (simp_all add: is_digit_not_special)
  have dw: "dropWhile is_space ds = ds" using x(1) by (simp add: ds)
  have tw: "takeWhile is_digit ds = ds" using assms(1) by simp
  have nonneg: "0 \<le> digits_value ds"
    using assms(1) by (rule digits_value_nonneg)
  have hd: "hd ds \<noteq> CHR ''-''" "hd ds \<noteq> CHR ''+''"
    using x by (simp_all add: ds)
  show ?thesis
    unfolding stoi_def Let_def dw
    using assms(2,3) nonneg by (simp add: hd tw)
qed

lemma stoi_minus_digits:
  assumes "\<forall>c \<in> set ds. is_digit c" and "ds \<noteq> []"
    and "digits_value ds \<le> 2 ^ 31"
  shows "stoi (CHR ''-'' # ds) = Inr (word_of_int (- digits_value ds))"
proof -
  have sp: "\<not> is_space CHR ''-''" by (simp add: is_space_def)
  have tw: "takeWhile is_digit ds = ds" using assms(1) by simp
  have nonneg: "0 \<le> digits_value ds"
    using assms(1) by (rule digits_value_nonneg)
  have dw: "dropWhile is_space (CHR ''-'' # ds) = CHR ''-'' # ds"
    using sp by simp
  show ?thesis
    unfolding stoi_def Let_def dw
    using assms(2,3) nonneg by (simp add: tw)
qed

lemma stoi_to_string: "stoi (to_string (sint k)) = Inr k"
proof (cases "sint k < 0")
  case True
  let ?n = "nat (- sint k)"
  have dv: "digits_value (nat_digits ?n) = - sint k"
    using True by (simp add: digits_value_nat_digits)
  have "- (2 ^ 31) \<le> sint k" using sint_ge [of k] by simp
  then have "digits_value (nat_digits ?n) \<le> 2 ^ 31" unfolding dv by simp
  with stoi_minus_digits [of "nat_digits ?n"]
  have "stoi (CHR ''-'' # nat_digits ?n) = Inr (word_of_int (- digits_value (nat_digits ?n)))"
    by (simp add: nat_digits_digits nat_digits_not_Nil)
  with True show ?thesis
    by (simp add: to_string_def dv)
next
  case False
  let ?n = "nat (sint k)"
  have dv: "digits_value (nat_digits ?n) = sint k"
    using False by (simp add: digits_value_nat_digits)
  have "sint k < 2 ^ 31" using sint_lt [of k] by simp
  then have "digits_value (nat_digits ?n) < 2 ^ 31" unfolding dv by simp
  with stoi_digits [of "nat_digits ?n"]
  have "stoi (nat_digits ?n) = Inr (word_of_int (digits_value (nat_digits ?n)))"
    by (simp add: nat_digits_digits nat_digits_not_Nil)
  with False show ?thesis
    by (simp add: to_string_def dv)
qed

lemma to_string_chars: "c \<in> set (to_string i) \<Longrightarrow> is_digit c \<or> c = CHR ''-''"
  by (auto simp: to_string_def dest: nat_digits_digits split: if_splits)

lemma to_string_plain:
  "c \<in> set (to_string i) \<Longrightarrow>
     c \<noteq> CHR '':'' \<and> c \<noteq> CHR '','' \<and> c \<noteq> CHR ''['' \<and> c \<noteq> CHR '']''
     \<and> c \<noteq> CHR ''{'' \<and> c \<noteq> CHR ''}'' \<and> c \<noteq> CHR 0x22"
  by (auto dest!: to_string_chars simp: is_digit_def)

section \<open>Reading back what saveData wrote\<close>

lemma plain_date_chars:
  "plain_date d \<Longrightarrow> c \<in> set d \<Longrightarrow>
     c \<noteq> CHR 0x22 \<and> c \<noteq> CHR 0x5C \<and> c \<noteq> CHR 0x0A \<and> c \<noteq> CHR 0x0D \<and> c \<noteq> CHR 0x09
     \<and> c \<noteq> CHR '','' \<and> c \<noteq> CHR ''['' \<and> c \<noteq> CHR '']'' \<and> c \<noteq> CHR ''{'' \<and> c \<noteq> CHR ''}''"
  by (auto simp: plain_date_def special_chars_def list_all_iff)

lemma escape_plain: "plain_date d \<Longrightarrow> escape_json_string d = d"
proof (induction d)
  case Nil
  show ?case by simp
next
  case (Cons c d)
  from Cons.prems have "plain_date d"
    by (simp add: plain_date_def)
  moreover from plain_date_chars [OF Cons.prems, of c]
  have "c \<noteq> CHR 0x22 \<and> c \<noteq> CHR 0x5C \<and> c \<noteq> CHR 0x0A \<and> c \<noteq> CHR 0x0D \<and> c \<noteq> CHR 0x09"
    by simp
  ultimately show ?case
    using Cons.IH by simp
qed

lemma wrapped_around: "wrapped l r (l # xs @ [r])"
  by (simp add: wrapped_def)

lemma inner_around: "inner (l # xs @ [r]) = xs"
  by (simp add: inner_def)

subsection \<open>The loop over the characters\<close>

lemma scan_plain:
  assumes "\<forall>c \<in> set b. c \<noteq> CHR ''['' \<and> c \<noteq> CHR '']'' \<and> c \<noteq> CHR ''{'' \<and> c \<noteq> CHR ''}''"
    and "CHR '','' \<in> set b \<longrightarrow> kc \<noteq> 0"
  shows "scan (b @ r) seg bc kc st = scan r (seg @ b) bc kc st"
  using assms
proof (induction b arbitrary: seg)
  case Nil
  show ?case by simp
next
  case (Cons c b)
  from Cons.prems(1) have c: "c \<noteq> CHR ''[''" "c \<noteq> CHR '']''" "c \<noteq> CHR ''{''" "c \<noteq> CHR ''}''"
    by simp_all
  then have cnt: "count_brace c bc = bc" "count_bracket c kc = kc"
    by (simp_all add: count_brace_def count_bracket_def)
  from Cons.prems(2) have no_split: "c = CHR '','' \<Longrightarrow> kc \<noteq> 0"
    by simp
  have "scan ((c # b) @ r) seg bc kc st = scan (b @ r) (seg @ [c]) bc kc st"
  proof (cases "c = CHR '',''")
    case True
    with no_split have "kc \<noteq> 0" by simp
    then show ?thesis by (simp add: cnt Let_def)
  next
    case False
    then show ?thesis by (simp add: cnt Let_def)
  qed
  also have "\<dots> = scan r ((seg @ [c]) @ b) bc kc st"
    using Cons.prems by (intro Cons.IH) simp_all
  finally show ?case by simp
qed

lemma scan_open: "scan (CHR ''['' # r) seg 0 0 st = scan r (seg @ ''['') 0 1 st"
  by (simp add: count_brace_def count_bracket_def)

lemma scan_close: "scan (CHR '']'' # r) seg 0 1 st = scan r (seg @ '']'') 0 0 st"
  by (simp add: count_brace_def count_bracket_def)

lemma scan_comma:
  "scan (CHR '','' # r) seg 0 0 st
     = (case load_segment st seg of Inl e \<Rightarrow> Inl e | Inr st' \<Rightarrow> scan r [] 0 0 st')"
  by (simp add: count_brace_def count_bracket_def)

lemma spec_entry_plain:
  assumes "list_all plain_date ds"
  shows "spec_entry (k, ds) = key_text k @ '':'' @ CHR ''['' # body_text ds @ '']''"
proof -
  have m: "map (\<lambda>d. CHR 0x22 # spec_escape d @ [CHR 0x22]) ds
          = map (\<lambda>d. CHR 0x22 # d @ [CHR 0x22]) ds"
    using assms
    by (intro map_cong refl)
       (simp add: list_all_iff escape_json_string_spec [symmetric] escape_plain)
  show ?thesis
    by (simp add: spec_entry_def key_text_def body_text_def m)
qed

lemma join_chars: "c \<in> set (join sep xs) \<Longrightarrow> c \<in> set sep \<or> (\<exists>x \<in> set xs. c \<in> set x)"
  by (induction sep xs rule: join.induct) auto

lemma body_text_chars:
  assumes "list_all plain_date ds" and "c \<in> set (body_text ds)"
  shows "c \<noteq> CHR ''['' \<and> c \<noteq> CHR '']'' \<and> c \<noteq> CHR ''{'' \<and> c \<noteq> CHR ''}''"
proof -
  from join_chars [OF assms(2) [unfolded body_text_def]]
  consider "c = CHR '',''" | d where "d \<in> set ds" "c = CHR 0x22 \<or> c \<in> set d"
    by auto
  then show ?thesis
  proof cases
    case 1
    then show ?thesis by simp
  next
    case 2
    from assms(1) 2(1) have "plain_date d" by (simp add: list_all_iff)
    with 2(2) plain_date_chars [of d c] show ?thesis by auto
  qed
qed

lemma key_text_chars:
  "c \<in> set (key_text k @ '':'') \<Longrightarrow>
     c \<noteq> CHR '','' \<and> c \<noteq> CHR ''['' \<and> c \<noteq> CHR '']'' \<and> c \<noteq> CHR ''{'' \<and> c \<noteq> CHR ''}''"
  by (auto simp: key_text_def dest: to_string_plain)

lemma scan_entry:
  assumes "list_all plain_date ds"
  shows "scan (spec_entry (k, ds) @ r) seg 0 0 st = scan r (seg @ spec_entry (k, ds)) 0 0 st"
proof -
  let ?kp = "key_text k @ '':''" and ?b = "body_text ds"
  have e: "spec_entry (k, ds) = ?kp @ CHR ''['' # ?b @ '']''"
    using assms by (simp add: spec_entry_plain)
  have "scan (?kp @ (CHR ''['' # ?b @ CHR '']'' # r)) seg 0 0 st
          = scan (CHR ''['' # ?b @ CHR '']'' # r) (seg @ ?kp) 0 0 st"
    by (rule scan_plain) (use key_text_chars [of _ k] in blast)+
  also have "\<dots> = scan (?b @ CHR '']'' # r) ((seg @ ?kp) @ ''['') 0 1 st"
    by (rule scan_open)
  also have "\<dots> = scan (CHR '']'' # r) (((seg @ ?kp) @ ''['') @ ?b) 0 1 st"
    by (rule scan_plain) (use body_text_chars [OF assms] in simp_all)
  also have "\<dots> = scan r ((((seg @ ?kp) @ ''['') @ ?b) @ '']'') 0 0 st"
    by (rule scan_close)
  finally show ?thesis
    unfolding e by simp
qed

subsection \<open>One entry\<close>

lemma find_colon_entry:
  "find_colon (key_text k @ '':'' @ rest) = Some (length (key_text k))"
proof -
  have "\<forall>c \<in> set (key_text k). c \<noteq> CHR '':''"
    by (auto simp: key_text_def dest: to_string_plain)
  then have "takeWhile (\<lambda>c. c \<noteq> CHR '':'') (key_text k @ '':'' @ rest) = key_text k"
    by simp
  then show ?thesis
    by (simp add: find_colon_def)
qed

lemma strip_key_key_text: "strip_key (key_text k) = to_string (sint k)"
  unfolding key_text_def strip_key_def
  by (simp only: wrapped_around inner_around if_True)

lemma getline_all_join:
  "\<forall>x \<in> set xs. x \<noteq> [] \<and> CHR '','' \<notin> set x \<Longrightarrow> getline_all (join '','' xs) = xs"
proof (induction "'',''" xs rule: join.induct)
  case 1
  show ?case by (simp add: getline_all.simps [of "[]"])
next
  case (2 x)
  then have x: "x \<noteq> []" "\<forall>c \<in> set x. c \<noteq> CHR '',''" by auto
  have tw: "takeWhile (\<lambda>c. c \<noteq> CHR '','') x = x"
    using x(2) by simp
  have dw: "dropWhile (\<lambda>c. c \<noteq> CHR '','') x = []"
    using x(2) by simp
  have "getline_all x = x # getline_all []"
    using x(1) by (subst getline_all.simps) (simp only: tw dw, simp)
  then show ?case
    by (simp add: getline_all.simps [of "[]"])
next
  case (3 x y ys)
  then have x: "x \<noteq> []" "\<forall>c \<in> set x. c \<noteq> CHR '',''" by auto
  let ?s = "x @ '','' @ join '','' (y # ys)"
  have tw: "takeWhile (\<lambda>c. c \<noteq> CHR '','') ?s = x"
    using x(2) by simp
  have dw: "dropWhile (\<lambda>c. c \<noteq> CHR '','') ?s = '','' @ join '','' (y # ys)"
    using x(2) by simp
  have "getline_all ?s = x # getline_all (join '','' (y # ys))"
    using x(1) by (subst getline_all.simps) (simp only: tw dw, simp)
  also have "getline_all (join '','' (y # ys)) = y # ys"
    using 3 by simp
  finally show ?case by simp
qed

lemma clean_date_quoted:
  "clean_date (CHR 0x22 # d @ [CHR 0x22]) = d"
proof -
  have sp: "\<not> is_space (CHR 0x22)" by (simp add: is_space_def)
  have "trim (CHR 0x22 # d @ [CHR 0x22]) = CHR 0x22 # d @ [CHR 0x22]"
    using sp by (simp add: trim_def)
  then show ?thesis
    unfolding clean_date_def Let_def
    by (simp only: wrapped_around inner_around if_True)
qed

lemma dates_of_body_text:
  assumes "list_all plain_date ds"
  shows "map clean_date (getline_all (body_text ds)) = ds"
proof -
  have "\<forall>x \<in> set (map (\<lambda>d. CHR 0x22 # d @ [CHR 0x22]) ds). x \<noteq> [] \<and> CHR '','' \<notin> set x"
    using assms plain_date_chars by (fastforce simp: list_all_iff)
  then have "getline_all (body_text ds) = map (\<lambda>d. CHR 0x22 # d @ [CHR 0x22]) ds"
    unfolding body_text_def by (rule getline_all_join)
  then show ?thesis
    by (simp add: comp_def clean_date_quoted)
qed

subsection \<open>A new greatest key\<close>

lemma at_roll_new_last:
  "\<forall>k' \<in> fst ` set st. roll_less k' k \<Longrightarrow> at_roll st k f = st @ [(k, f [])]"
proof (induction st)
  case Nil
  show ?case by simp
next
  case (Cons p st)
  obtain k' v where p: "p = (k', v)" by (cases p)
  from Cons.prems have lt: "roll_less k' k" by (simp add: p)
  then have "k' \<noteq> k" and "\<not> roll_less k k'"
    by (auto simp: roll_less_def)
  with Cons show ?case by (simp add: p)
qed

lemma at_roll_last:
  "\<forall>k' \<in> fst ` set st. roll_less k' k \<Longrightarrow> at_roll (st @ [(k, v)]) k f = st @ [(k, f v)]"
proof (induction st)
  case Nil
  show ?case by simp
next
  case (Cons p st)
  obtain k' v' where p: "p = (k', v')" by (cases p)
  from Cons.prems have lt: "roll_less k' k" by (simp add: p)
  then have "k' \<noteq> k" and "\<not> roll_less k k'"
    by (auto simp: roll_less_def)
  with Cons show ?case by (simp add: p)
qed

lemma fold_at_roll_last:
  "\<forall>k' \<in> fst ` set st. roll_less k' k \<Longrightarrow>
     fold (\<lambda>x st'. at_roll st' k (\<lambda>v. v @ [g x])) xs (st @ [(k, v)]) = st @ [(k, v @ map g xs)]"
  by (induction xs arbitrary: v) (simp_all add: at_roll_last)

lemma push_dates_new_last:
  assumes "\<forall>k' \<in> fst ` set st. roll_less k' k"
  shows "push_dates st k value_str = st @ [(k, sort (map clean_date (getline_all value_str)))]"
proof (cases "getline_all value_str")
  case Nil
  with assms show ?thesis
    by (simp add: push_dates_def at_roll_new_last)
next
  case (Cons x xs)
  have "fold (\<lambda>x st'. at_roll st' k (\<lambda>v. v @ [clean_date x])) (x # xs) st
          = fold (\<lambda>x st'. at_roll st' k (\<lambda>v. v @ [clean_date x])) xs (st @ [(k, [clean_date x])])"
    using assms by (simp add: at_roll_new_last)
  also have "\<dots> = st @ [(k, [clean_date x] @ map clean_date xs)]"
    using assms by (rule fold_at_roll_last)
  finally show ?thesis
    using assms unfolding push_dates_def Cons by (simp add: at_roll_last)
qed

lemma load_entry:
  assumes "list_all plain_date ds" and "sorted ds"
    and "\<forall>k' \<in> fst ` set st. roll_less k' k"
  shows "load_segment st (spec_entry (k, ds)) = Inr (st @ [(k, ds)])"
    and "load_last_segment st (spec_entry (k, ds)) = Inr (st @ [(k, ds)])"
proof -
  let ?v = "CHR ''['' # body_text ds @ '']''"
  have e: "spec_entry (k, ds) = key_text k @ '':'' @ ?v"
    using assms(1) by (simp add: spec_entry_plain)
  have fc: "find_colon (spec_entry (k, ds)) = Some (length (key_text k))"
    unfolding e by (rule find_colon_entry)
  have key: "take (length (key_text k)) (spec_entry (k, ds)) = key_text k"
    unfolding e by simp
  have val: "drop (length (key_text k) + 1) (spec_entry (k, ds)) = ?v"
    unfolding e by simp
  have w: "wrapped (CHR ''['') (CHR '']'') ?v" by (rule wrapped_around)
  have i: "inner ?v = body_text ds" by (rule inner_around)
  have p: "push_dates st k (body_text ds) = st @ [(k, ds)]"
    using assms by (simp add: push_dates_new_last dates_of_body_text sorted_sort_id)
  show "load_segment st (spec_entry (k, ds)) = Inr (st @ [(k, ds)])"
    unfolding load_segment_def fc key val Let_def
    by (simp only: fc key val option.case strip_key_key_text stoi_to_string sum.case w i p
          if_True)
  show "load_last_segment st (spec_entry (k, ds)) = Inr (st @ [(k, ds)])"
    unfolding load_last_segment_def fc key val Let_def
    by (simp only: fc key val option.case strip_key_key_text stoi_to_string sum.case w i p
          if_True)
qed

subsection \<open>All entries\<close>

lemma keys_before:
  "store_inv (pre @ (k, ds) # post) \<Longrightarrow> \<forall>k' \<in> fst ` set pre. roll_less k' k"
  by (auto simp: store_inv_def sorted_wrt_append)

lemma load_entries:
  assumes "store_inv (pre @ post)" and "post \<noteq> []"
    and "plain_store post" and "dates_ok post"
  shows "(case scan (join '','' (map spec_entry post)) [] 0 0 pre of
            Inl e \<Rightarrow> Inl e
          | Inr (segment, st') \<Rightarrow> load_last_segment st' segment) = Inr (pre @ post)"
  using assms
proof (induction post arbitrary: pre)
  case Nil
  then show ?case by simp
next
  case (Cons e post)
  obtain k ds where e: "e = (k, ds)" by (cases e)
  from Cons.prems(3) have pl: "list_all plain_date ds" and pl': "plain_store post"
    by (simp_all add: plain_store_def e)
  from Cons.prems(4) have so: "sorted ds" and ok': "dates_ok post"
    by (simp_all add: dates_ok_def e)
  from Cons.prems(1) have lt: "\<forall>k' \<in> fst ` set pre. roll_less k' k"
    unfolding e by (rule keys_before)
  note ld = load_entry [OF pl so lt]
  show ?case
  proof (cases post)
    case Nil
    have "scan (spec_entry (k, ds) @ []) [] 0 0 pre = scan [] ([] @ spec_entry (k, ds)) 0 0 pre"
      using pl by (rule scan_entry)
    then have "scan (spec_entry (k, ds)) [] 0 0 pre = Inr (spec_entry (k, ds), pre)"
      by simp
    then show ?thesis
      by (simp add: Nil e ld(2))
  next
    case (Cons e2 es)
    let ?rest = "join '','' (map spec_entry post)"
    have j: "join '','' (map spec_entry (e # post)) = spec_entry (k, ds) @ CHR '','' # ?rest"
      by (simp add: Cons e)
    have "scan (spec_entry (k, ds) @ CHR '','' # ?rest) [] 0 0 pre
            = scan (CHR '','' # ?rest) ([] @ spec_entry (k, ds)) 0 0 pre"
      using pl by (rule scan_entry)
    also have "\<dots> = scan ?rest [] 0 0 (pre @ [(k, ds)])"
      by (simp only: append_Nil scan_comma ld(1) sum.case)
    finally have s: "scan (join '','' (map spec_entry (e # post))) [] 0 0 pre
                       = scan ?rest [] 0 0 (pre @ [(k, ds)])"
      unfolding j .
    have inv: "store_inv ((pre @ [(k, ds)]) @ post)"
      using Cons.prems(1) by (simp add: e)
    have ne: "post \<noteq> []" by (simp add: Cons)
    from Cons.IH [OF inv ne pl' ok'] show ?thesis
      unfolding s by (simp add: e)
  qed
qed

lemma encode_shape:
  "encode s \<noteq> [] \<and> 2 \<le> length (encode s) \<and> hd (encode s) = CHR ''{''
   \<and> last (encode s) = CHR ''}'' \<and> inner (encode s) = join '','' (map spec_entry s)"
  by (simp add: encode_spec spec_encode_def inner_def)

text \<open>
  C3, as amended. Take a store whose dates are sorted and free of duplicates, and let
  every date be plain: without double quote, backslash, newline, carriage return, tab,
  comma, bracket and brace. Then loading the text that \<^verbatim>\<open>saveData\<close> writes for it into
  the empty store succeeds and gives the same store back: the same roll numbers with
  the same dates.
\<close>

theorem load_saved_plain_store:
  assumes "store_inv s" and "dates_ok s" and "plain_store s"
  shows "loadData (Some (encode s)) [] = (Loaded, s)"
proof (cases s)
  case Nil
  have "encode [] = ''{}''" by (simp add: encode_def)
  then show ?thesis
    unfolding Nil by (simp add: loadData_def inner_def load_last_segment_def find_colon_def)
next
  case (Cons e r)
  then have ne: "s \<noteq> []" by simp
  from assms(1) have "store_inv ([] @ s)" by simp
  from load_entries [OF this ne assms(3) assms(2)]
  have l: "(case scan (inner (encode s)) [] 0 0 [] of
              Inl e \<Rightarrow> Inl e
            | Inr (segment, st') \<Rightarrow> load_last_segment st' segment) = Inr s"
    by (simp add: encode_shape)
  show ?thesis
    unfolding loadData_def using l encode_shape [of s]
    by (auto split: sum.splits prod.splits)
qed

theorem load_saved_plain_store_witness:
  \<open>store_inv [(- 3, [''y'']), (101, [''2025-07-01'', ''2025-07-02''])]
   \<and> dates_ok [(- 3, [''y'']), (101, [''2025-07-01'', ''2025-07-02''])]
   \<and> plain_store [(- 3, [''y'']), (101, [''2025-07-01'', ''2025-07-02''])]
   \<and> loadData (Some ''{"-3":["y"],"101":["2025-07-01","2025-07-02"]}'') []
       = (Loaded, [(- 3, [''y'']), (101, [''2025-07-01'', ''2025-07-02''])])\<close>
proof -
  let ?s = "[(- 3, [''y'']), (101, [''2025-07-01'', ''2025-07-02''])] :: store"
  have h1: "store_inv ?s" by (simp add: store_inv_def roll_less_def)
  have h2: "dates_ok ?s" by (simp add: dates_ok_def)
  have h3: "plain_store ?s" by (simp add: plain_store_def plain_date_def special_chars_def)
  have t: \<open>encode ?s = ''{"-3":["y"],"101":["2025-07-01","2025-07-02"]}''\<close>
    by (rule encode_example)
  from load_saved_plain_store [OF h1 h2 h3]
  have "loadData (Some (encode ?s)) [] = (Loaded, ?s)" .
  then have c: \<open>loadData (Some ''{"-3":["y"],"101":["2025-07-01","2025-07-02"]}'') []
                  = (Loaded, ?s)\<close>
    by (simp only: t)
  from h1 h2 h3 c show ?thesis by (intro conjI)
qed

text \<open>
  C3, as stated, fails: the store \<open>{1: ["a,b"]}\<close> is sorted and free of duplicates, it
  is written as \<^verbatim>\<open>{"1":["a,b"]}\<close>, and loading that text gives roll number 1 the
  two dates \<^verbatim>\<open>"a\<close> and \<^verbatim>\<open>b"\<close>, not the date \<^verbatim>\<open>a,b\<close>.
\<close>

theorem load_saved_comma_date:
  \<open>store_inv [(1, [''a,b''])] \<and> dates_ok [(1, [''a,b''])]
   \<and> encode [(1, [''a,b''])] = ''{"1":["a,b"]}''
   \<and> loadData (Some (encode [(1, [''a,b''])])) []
       = (Loaded, [(1, [[CHR 0x22, CHR ''a''], [CHR ''b'', CHR 0x22]])])
   \<and> set (dates_at (snd (loadData (Some (encode [(1, [''a,b''])])) [])) 1)
       \<noteq> set (dates_at [(1, [''a,b''])] 1)\<close>
proof -
  have h1: "store_inv [(1, [''a,b''])]" by (simp add: store_inv_def)
  have h2: "dates_ok [(1, [''a,b''])]" by (simp add: dates_ok_def)
  have t: \<open>encode [(1, [''a,b''])] = ''{"1":["a,b"]}''\<close> by code_simp
  have l: \<open>loadData (Some ''{"1":["a,b"]}'') []
             = (Loaded, [(1, [[CHR 0x22, CHR ''a''], [CHR ''b'', CHR 0x22]])])\<close>
    by code_simp
  have d: \<open>set (dates_at (snd (loadData (Some ''{"1":["a,b"]}'') [])) 1)
             \<noteq> set (dates_at [(1, [''a,b''])] 1)\<close>
    unfolding l by (simp add: dates_at_def)
  from h1 h2 t l d show ?thesis
    by (simp only: t simp_thms)
qed

text \<open>
  Each of the other characters left out above also changes what is read back: an
  escaped character comes back with its backslash, and a bracket or a brace in a date
  moves the depth counters, so that the comma between two entries is not seen.
\<close>

lemma load_saved_special_dates:
  "loadData (Some (encode [(1, [[CHR 0x22]])])) [] = (Loaded, [(1, [[CHR 0x5C, CHR 0x22]])])"
  "loadData (Some (encode [(1, [[CHR 0x5C]])])) [] = (Loaded, [(1, [[CHR 0x5C, CHR 0x5C]])])"
  "loadData (Some (encode [(1, [[CHR 0x0A]])])) [] = (Loaded, [(1, [[CHR 0x5C, CHR ''n'']])])"
  "loadData (Some (encode [(1, [[CHR 0x0D]])])) [] = (Loaded, [(1, [[CHR 0x5C, CHR ''r'']])])"
  "loadData (Some (encode [(1, [[CHR 0x09]])])) [] = (Loaded, [(1, [[CHR 0x5C, CHR ''t'']])])"
  "snd (loadData (Some (encode [(1, [''['']), (2, [''x''])])) []) \<noteq> [(1, [''['']), (2, [''x''])]"
  "snd (loadData (Some (encode [(1, ['']'']), (2, [''x''])])) []) \<noteq> [(1, ['']'']), (2, [''x''])]"
  "snd (loadData (Some (encode [(1, [''{'']), (2, [''x''])])) []) \<noteq> [(1, [''{'']), (2, [''x''])]"
  "snd (loadData (Some (encode [(1, [''}'']), (2, [''x''])])) []) \<noteq> [(1, [''}'']), (2, [''x''])]"
  by code_simp+

end
